theory Spec2Isabelle
  imports Main "HOL-Library.Monad_Syntax"
begin

section \<open>Data model of \<open>weakable_unique_ptr.hpp\<close>\<close>

text \<open>
  A raw object pointer \<open>T*\<close> is a natural number, \<open>0\<close> being the null pointer.  A value
  of the template parameter \<open>Deleter\<close> is a natural number as well; the
  value-initialised \<open>Deleter()\<close> is \<open>default_deleter\<close>.  A control block lives at a heap
  address; an \<open>intrusive_ptr<control_block>\<close> is an optional address, \<open>None\<close> being the
  null handle.
\<close>

type_synonym pointer = nat
type_synonym deleter = nat
type_synonym addr = nat

definition default_deleter :: deleter where
  "default_deleter = 0"

text \<open>
  The largest value of the C++ type \<open>long\<close> is implementation-defined and at least
  2147483647.  The parameter \<open>m\<close> of the model is what the implementation has beyond
  that minimum: \<open>m = 0\<close> where \<open>long\<close> has 32 bits, \<open>m = 2^63 - 2^31\<close> where it has 64.
\<close>

definition LONG_MAX :: "nat \<Rightarrow> int" where
  "LONG_MAX m = 2147483647 + int m"

text \<open>
  \<open>detail::weakable_unique_ptr_control_block<T>\<close> (lines 17 to 50).  The count is a C++
  \<open>long\<close> (line 20); the record holds its value, and the increment of a count that is
  \<open>LONG_MAX\<close> is the undefined behaviour that signed overflow is in C++ (see
  \<open>intrusive_ptr_add_ref\<close> below).  The field \<open>px\<close> of the control block is called
  \<open>cb_px\<close>, to keep it apart from the field \<open>px\<close> of the owner.
\<close>

record control_block =
  ref_count :: int
  cb_px :: pointer

text \<open>\<open>weakable_unique_ptr<T, Deleter>\<close>: the members \<open>px\<close>, \<open>pd\<close>, \<open>pc\<close> (lines 75 to 77).\<close>

record weakable_unique_ptr =
  px :: pointer
  pd :: deleter
  pc :: "addr option"

text \<open>\<open>unique_weak_ptr<T>\<close>: its only member \<open>pc\<close> (line 260), here \<open>w_pc\<close>.\<close>

record unique_weak_ptr =
  w_pc :: "addr option"

text \<open>
  The effects of a run are recorded in order: the allocation of a control block by
  \<open>new\<close>, an invocation \<open>pd(px)\<close> of the deleter, a call of the control block's
  \<open>reset()\<close>, and the \<open>delete\<close> of a control block.  The deleter is a parameter of the
  class: its invocation is recorded with the deleter and the pointer it is given, and
  what it does to the object is not part of the model.
\<close>

datatype event =
    Alloc addr
  | Destroy deleter pointer
  | Clear addr
  | Free addr

text \<open>
  The program state: the heap of control blocks (index = address, \<open>None\<close> once
  deleted), the owner objects and the observer objects of the program (index = identity
  of the object, \<open>None\<close> once its lifetime has ended), and the effects so far.
  Temporaries of the member functions are objects like any other; their slot is \<open>None\<close>
  again when the member function returns.
\<close>

record state =
  heap :: "control_block option list"
  owners :: "weakable_unique_ptr option list"
  observers :: "unique_weak_ptr option list"
  trace :: "event list"

definition init :: state where
  "init = \<lparr>heap = [], owners = [], observers = [], trace = []\<rparr>"

text \<open>
  Reading a control block, an owner or an observer that is not there (never created, or
  already deleted) is undefined behaviour in C++, and so is the overflow of the count.
  Every operation below returns \<open>None\<close> in these cases, so that a result \<open>Some\<close> says
  that the run stayed defined.
\<close>

definition cell :: "state \<Rightarrow> addr \<Rightarrow> control_block option" where
  "cell s a = (if a < length (heap s) then heap s ! a else None)"

definition owner :: "state \<Rightarrow> nat \<Rightarrow> weakable_unique_ptr option" where
  "owner s i = (if i < length (owners s) then owners s ! i else None)"

definition observer :: "state \<Rightarrow> nat \<Rightarrow> unique_weak_ptr option" where
  "observer s i = (if i < length (observers s) then observers s ! i else None)"

definition emit :: "event \<Rightarrow> state \<Rightarrow> state" where
  "emit e s = s\<lparr>trace := trace s @ [e]\<rparr>"

definition put_cell :: "addr \<Rightarrow> control_block option \<Rightarrow> state \<Rightarrow> state" where
  "put_cell a c s = s\<lparr>heap := (heap s)[a := c]\<rparr>"

definition put_owner :: "nat \<Rightarrow> weakable_unique_ptr option \<Rightarrow> state \<Rightarrow> state" where
  "put_owner i w s = s\<lparr>owners := (owners s)[i := w]\<rparr>"

definition put_observer :: "nat \<Rightarrow> unique_weak_ptr option \<Rightarrow> state \<Rightarrow> state" where
  "put_observer i w s = s\<lparr>observers := (observers s)[i := w]\<rparr>"

definition new_owner :: "weakable_unique_ptr \<Rightarrow> state \<Rightarrow> nat \<times> state" where
  "new_owner w s = (length (owners s), s\<lparr>owners := owners s @ [Some w]\<rparr>)"

definition new_observer :: "unique_weak_ptr \<Rightarrow> state \<Rightarrow> nat \<times> state" where
  "new_observer w s = (length (observers s), s\<lparr>observers := observers s @ [Some w]\<rparr>)"

section \<open>The control block\<close>

text \<open>
  \<open>new control_block( p )\<close> with the constructor of lines 23 to 26: a block at a new
  address, with \<open>ref_count\<close> 0 and \<open>px\<close> = \<open>p\<close>.  The heap is unbounded: \<open>new\<close> does not
  throw.  No address is used twice; a real allocator may use the address of a deleted
  block again, which no run can tell apart, since no handle refers to a deleted block
  (\<open>inv_refs\<close> below).
\<close>

definition new_control_block :: "pointer \<Rightarrow> state \<Rightarrow> addr \<times> state" where
  "new_control_block p s =
     (length (heap s),
      emit (Alloc (length (heap s)))
        (s\<lparr>heap := heap s @ [Some \<lparr>ref_count = 0, cb_px = p\<rparr>]\<rparr>))"

text \<open>\<open>control_block::reset()\<close>, lines 31 to 34: \<open>px = nullptr\<close>.\<close>

definition cb_reset :: "addr \<Rightarrow> state \<Rightarrow> state option" where
  "cb_reset a s =
     (case cell s a of
        None \<Rightarrow> None
      | Some cb \<Rightarrow> Some (emit (Clear a) (put_cell a (Some (cb\<lparr>cb_px := 0\<rparr>)) s)))"

text \<open>\<open>control_block::get()\<close>, lines 36 to 39.\<close>

definition cb_get :: "addr \<Rightarrow> state \<Rightarrow> pointer option" where
  "cb_get a s = map_option cb_px (cell s a)"

text \<open>
  \<open>intrusive_ptr_add_ref\<close>, lines 41 to 43: \<open>++p->ref_count\<close>.  The increment is
  defined only below \<open>LONG_MAX\<close>.
\<close>

definition intrusive_ptr_add_ref :: "nat \<Rightarrow> addr \<Rightarrow> state \<Rightarrow> state option" where
  "intrusive_ptr_add_ref m a s =
     (case cell s a of
        None \<Rightarrow> None
      | Some cb \<Rightarrow>
          (if ref_count cb < LONG_MAX m
           then Some (put_cell a (Some (cb\<lparr>ref_count := ref_count cb + 1\<rparr>)) s)
           else None))"

text \<open>
  \<open>intrusive_ptr_release\<close>, lines 45 to 49: \<open>if ( --p->ref_count == 0 ) delete p\<close>.
  The decrement has no overflow to meet: the count of a live block is at least 1 and at
  most \<open>LONG_MAX\<close> in every state that a client program reaches (\<open>inv_refs\<close> and
  \<open>inv_long\<close> below).
\<close>

definition intrusive_ptr_release :: "addr \<Rightarrow> state \<Rightarrow> state option" where
  "intrusive_ptr_release a s =
     (case cell s a of
        None \<Rightarrow> None
      | Some cb \<Rightarrow>
          (if ref_count cb - 1 = 0
           then Some (emit (Free a) (put_cell a None s))
           else Some (put_cell a (Some (cb\<lparr>ref_count := ref_count cb - 1\<rparr>)) s)))"

text \<open>
  Modelled from the spec: \<open>boost::intrusive_ptr\<close> is a library type that is not part of
  the source file.  Taking a handle (construction from a raw pointer, copy
  construction, \<open>static_pointer_cast\<close>) is a "reference count increment" on a non-null
  pointer; the end of a handle is a "reference count decrement, deallocating the Cell
  if it was last"; moving a handle and swapping two handles leave the counts alone, and
  a moved-from handle is null.
\<close>

definition ip_copy :: "nat \<Rightarrow> addr option \<Rightarrow> state \<Rightarrow> state option" where
  "ip_copy m h s = (case h of None \<Rightarrow> Some s | Some a \<Rightarrow> intrusive_ptr_add_ref m a s)"

definition ip_dtor :: "addr option \<Rightarrow> state \<Rightarrow> state option" where
  "ip_dtor h s = (case h of None \<Rightarrow> Some s | Some a \<Rightarrow> intrusive_ptr_release a s)"

section \<open>The owner \<open>weakable_unique_ptr\<close>\<close>

text \<open>
  The default constructor and the constructor from \<open>nullptr_t\<close>, lines 99 to 107:
  \<open>px( 0 ), pd( ), pc( )\<close>.  The result is the identity of the new object.
\<close>

definition wup_default :: "state \<Rightarrow> (nat \<times> state) option" where
  "wup_default s = Some (new_owner \<lparr>px = 0, pd = default_deleter, pc = None\<rparr> s)"

text \<open>
  The constructors from a pointer, lines 109 to 128:
  \<open>px( p ), pd( d ), pc( new control_block( p ) )\<close>; the one-argument form of line 109
  is \<open>wup_ctor m p default_deleter\<close>.
\<close>

definition wup_ctor :: "nat \<Rightarrow> pointer \<Rightarrow> deleter \<Rightarrow> state \<Rightarrow> (nat \<times> state) option" where
  "wup_ctor m p d s =
     (case new_control_block p s of
        (a, s1) \<Rightarrow>
          do { s2 \<leftarrow> ip_copy m (Some a) s1;
               Some (new_owner \<lparr>px = p, pd = d, pc = Some a\<rparr> s2) })"

text \<open>
  The move constructor, lines 132 to 136 (the converting move constructor of lines 140
  to 149 has the same initialisers and body):
  \<open>px( r.px ), pd( std::move( r.pd ) ), pc( std::move( r.pc ) )\<close>, then \<open>r.px = 0\<close>.
  The moved-from deleter keeps its value, as a trivially movable deleter does.
\<close>

definition wup_move :: "nat \<Rightarrow> state \<Rightarrow> (nat \<times> state) option" where
  "wup_move r s =
     do { src \<leftarrow> owner s r;
          case new_owner \<lparr>px = px src, pd = pd src, pc = pc src\<rparr> s of
            (i, s1) \<Rightarrow> Some (i, put_owner r (Some (src\<lparr>px := 0, pc := None\<rparr>)) s1) }"

text \<open>\<open>swap\<close>, lines 241 to 246: the three members are exchanged.\<close>

definition wup_swap :: "nat \<Rightarrow> nat \<Rightarrow> state \<Rightarrow> state option" where
  "wup_swap i r s =
     do { a \<leftarrow> owner s i;
          b \<leftarrow> owner s r;
          Some (put_owner r (Some a) (put_owner i (Some b) s)) }"

text \<open>
  The destructor, lines 85 to 95: \<open>if( px ) pd( px )\<close>, then \<open>if ( pc ) ( *pc ).reset()\<close>;
  after the body the member \<open>pc\<close> is destroyed, which gives up its handle, and the
  lifetime of the object ends.
\<close>

definition wup_dtor :: "nat \<Rightarrow> state \<Rightarrow> state option" where
  "wup_dtor i s =
     do { w \<leftarrow> owner s i;
          s1 \<leftarrow> Some (if px w \<noteq> 0 then emit (Destroy (pd w) (px w)) s else s);
          s2 \<leftarrow> (case pc w of None \<Rightarrow> Some s1 | Some a \<Rightarrow> cb_reset a s1);
          s3 \<leftarrow> ip_dtor (pc w) s2;
          Some (put_owner i None s3) }"

text \<open>
  Move assignment, lines 160 to 164:
  \<open>weakable_unique_ptr( std::move( r ) ).swap( *this )\<close>; the temporary is destroyed at
  the end of the statement.
\<close>

definition wup_move_assign :: "nat \<Rightarrow> nat \<Rightarrow> state \<Rightarrow> state option" where
  "wup_move_assign i r s =
     do { (t, s1) \<leftarrow> wup_move r s;
          s2 \<leftarrow> wup_swap t i s1;
          wup_dtor t s2 }"

text \<open>Assignment of \<open>nullptr\<close>, lines 173 to 177: \<open>weakable_unique_ptr().swap( *this )\<close>.\<close>

definition wup_assign_null :: "nat \<Rightarrow> state \<Rightarrow> state option" where
  "wup_assign_null i s =
     do { (t, s1) \<leftarrow> wup_default s;
          s2 \<leftarrow> wup_swap t i s1;
          wup_dtor t s2 }"

text \<open>
  \<open>release\<close>, lines 184 to 189: \<open>weakable_unique_ptr tmp; tmp.swap( *this );
  return boost::exchange( tmp.px, nullptr );\<close> and then the destructor of \<open>tmp\<close>.
\<close>

definition wup_release :: "nat \<Rightarrow> state \<Rightarrow> (pointer \<times> state) option" where
  "wup_release i s =
     do { (t, s1) \<leftarrow> wup_default s;
          s2 \<leftarrow> wup_swap t i s1;
          tmp \<leftarrow> owner s2 t;
          s4 \<leftarrow> wup_dtor t (put_owner t (Some (tmp\<lparr>px := 0\<rparr>)) s2);
          Some (px tmp, s4) }"

text \<open>
  \<open>reset\<close>, lines 193 to 196: \<open>weakable_unique_ptr( p ).swap( *this )\<close>, with the
  one-argument constructor of line 109.
\<close>

definition wup_reset :: "nat \<Rightarrow> nat \<Rightarrow> pointer \<Rightarrow> state \<Rightarrow> state option" where
  "wup_reset m i p s =
     do { (t, s1) \<leftarrow> wup_ctor m p default_deleter s;
          s2 \<leftarrow> wup_swap t i s1;
          wup_dtor t s2 }"

text \<open>\<open>get\<close>, lines 215 to 218, and \<open>operator bool\<close>, lines 230 to 233.\<close>

definition wup_get :: "nat \<Rightarrow> state \<Rightarrow> pointer option" where
  "wup_get i s = map_option px (owner s i)"

definition wup_bool :: "nat \<Rightarrow> state \<Rightarrow> bool option" where
  "wup_bool i s = map_option (\<lambda>w. px w \<noteq> 0) (owner s i)"

section \<open>The observer \<open>unique_weak_ptr\<close>\<close>

text \<open>The default constructor, lines 267 to 269.\<close>

definition uwp_default :: "state \<Rightarrow> (nat \<times> state) option" where
  "uwp_default s = Some (new_observer \<lparr>w_pc = None\<rparr> s)"

text \<open>The copy constructor, lines 271 to 273: \<open>pc( r.pc )\<close>.\<close>

definition uwp_copy :: "nat \<Rightarrow> nat \<Rightarrow> state \<Rightarrow> (nat \<times> state) option" where
  "uwp_copy m r s =
     do { src \<leftarrow> observer s r;
          s1 \<leftarrow> ip_copy m (w_pc src) s;
          Some (new_observer \<lparr>w_pc = w_pc src\<rparr> s1) }"

text \<open>
  The constructor from an owner, lines 283 to 289:
  \<open>pc( boost::static_pointer_cast<control_block>( r.pc ) )\<close>.
\<close>

definition uwp_from_owner :: "nat \<Rightarrow> nat \<Rightarrow> state \<Rightarrow> (nat \<times> state) option" where
  "uwp_from_owner m r s =
     do { src \<leftarrow> owner s r;
          s1 \<leftarrow> ip_copy m (pc src) s;
          Some (new_observer \<lparr>w_pc = pc src\<rparr> s1) }"

text \<open>The move constructor, lines 291 to 293: \<open>pc( std::move( r.pc ) )\<close>.\<close>

definition uwp_move :: "nat \<Rightarrow> state \<Rightarrow> (nat \<times> state) option" where
  "uwp_move r s =
     do { src \<leftarrow> observer s r;
          case new_observer \<lparr>w_pc = w_pc src\<rparr> s of
            (i, s1) \<Rightarrow> Some (i, put_observer r (Some (src\<lparr>w_pc := None\<rparr>)) s1) }"

text \<open>\<open>swap\<close>, lines 341 to 344.\<close>

definition uwp_swap :: "nat \<Rightarrow> nat \<Rightarrow> state \<Rightarrow> state option" where
  "uwp_swap i r s =
     do { a \<leftarrow> observer s i;
          b \<leftarrow> observer s r;
          Some (put_observer r (Some a) (put_observer i (Some b) s)) }"

text \<open>The destructor, lines 263 to 265: the body is empty, the member \<open>pc\<close> is destroyed.\<close>

definition uwp_dtor :: "nat \<Rightarrow> state \<Rightarrow> state option" where
  "uwp_dtor i s =
     do { w \<leftarrow> observer s i;
          s1 \<leftarrow> ip_dtor (w_pc w) s;
          Some (put_observer i None s1) }"

text \<open>
  The assignments, lines 303 to 334, and \<open>reset\<close>, lines 336 to 339: each constructs a
  temporary (by the copy constructor, the constructor from an owner, the move
  constructor or the default constructor), swaps it with \<open>*this\<close> and destroys it.
\<close>

definition uwp_assign :: "nat \<Rightarrow> nat \<Rightarrow> nat \<Rightarrow> state \<Rightarrow> state option" where
  "uwp_assign m i r s =
     do { (t, s1) \<leftarrow> uwp_copy m r s;
          s2 \<leftarrow> uwp_swap t i s1;
          uwp_dtor t s2 }"

definition uwp_assign_owner :: "nat \<Rightarrow> nat \<Rightarrow> nat \<Rightarrow> state \<Rightarrow> state option" where
  "uwp_assign_owner m i r s =
     do { (t, s1) \<leftarrow> uwp_from_owner m r s;
          s2 \<leftarrow> uwp_swap t i s1;
          uwp_dtor t s2 }"

definition uwp_move_assign :: "nat \<Rightarrow> nat \<Rightarrow> state \<Rightarrow> state option" where
  "uwp_move_assign i r s =
     do { (t, s1) \<leftarrow> uwp_move r s;
          s2 \<leftarrow> uwp_swap t i s1;
          uwp_dtor t s2 }"

definition uwp_reset :: "nat \<Rightarrow> state \<Rightarrow> state option" where
  "uwp_reset i s =
     do { (t, s1) \<leftarrow> uwp_default s;
          s2 \<leftarrow> uwp_swap t i s1;
          uwp_dtor t s2 }"

text \<open>
  \<open>expired\<close>, lines 346 to 349: \<open>!( pc && pc->get() )\<close>, and \<open>try_get\<close>, lines 351 to
  354: \<open>pc ? pc->get() : nullptr\<close>.  Both are member functions of the program state like
  the others: they return their value together with the state they leave behind.
\<close>

definition expired :: "nat \<Rightarrow> state \<Rightarrow> (bool \<times> state) option" where
  "expired i s =
     do { w \<leftarrow> observer s i;
          case w_pc w of
            None \<Rightarrow> Some (True, s)
          | Some a \<Rightarrow> do { p \<leftarrow> cb_get a s; Some (\<not> (p \<noteq> 0), s) } }"

definition try_get :: "nat \<Rightarrow> state \<Rightarrow> (pointer \<times> state) option" where
  "try_get i s =
     do { w \<leftarrow> observer s i;
          case w_pc w of
            None \<Rightarrow> Some (0, s)
          | Some a \<Rightarrow> do { p \<leftarrow> cb_get a s; Some (p, s) } }"

section \<open>Programs over the two classes\<close>

text \<open>
  A client program is a sequence of calls of the public members.  A constructor creates
  the object with the next free identity; the other calls name the objects they work
  on.  A program runs on an implementation, which fixes \<open>m\<close>.
\<close>

datatype call =
    Owner_Default
  | Owner_Ctor pointer deleter
  | Owner_Move nat
  | Owner_Move_Assign nat nat
  | Owner_Assign_Null nat
  | Owner_Release nat
  | Owner_Reset nat pointer
  | Owner_Swap nat nat
  | Owner_Dtor nat
  | Obs_Default
  | Obs_Copy nat
  | Obs_From_Owner nat
  | Obs_Move nat
  | Obs_Assign nat nat
  | Obs_Assign_Owner nat nat
  | Obs_Move_Assign nat nat
  | Obs_Reset nat
  | Obs_Swap nat nat
  | Obs_Dtor nat
  | Obs_Expired nat
  | Obs_Try_Get nat

fun exec :: "nat \<Rightarrow> call \<Rightarrow> state \<Rightarrow> state option" where
  "exec m Owner_Default s = map_option snd (wup_default s)"
| "exec m (Owner_Ctor p d) s = map_option snd (wup_ctor m p d s)"
| "exec m (Owner_Move r) s = map_option snd (wup_move r s)"
| "exec m (Owner_Move_Assign i r) s = wup_move_assign i r s"
| "exec m (Owner_Assign_Null i) s = wup_assign_null i s"
| "exec m (Owner_Release i) s = map_option snd (wup_release i s)"
| "exec m (Owner_Reset i p) s = wup_reset m i p s"
| "exec m (Owner_Swap i r) s = wup_swap i r s"
| "exec m (Owner_Dtor i) s = wup_dtor i s"
| "exec m Obs_Default s = map_option snd (uwp_default s)"
| "exec m (Obs_Copy r) s = map_option snd (uwp_copy m r s)"
| "exec m (Obs_From_Owner r) s = map_option snd (uwp_from_owner m r s)"
| "exec m (Obs_Move r) s = map_option snd (uwp_move r s)"
| "exec m (Obs_Assign i r) s = uwp_assign m i r s"
| "exec m (Obs_Assign_Owner i r) s = uwp_assign_owner m i r s"
| "exec m (Obs_Move_Assign i r) s = uwp_move_assign i r s"
| "exec m (Obs_Reset i) s = uwp_reset i s"
| "exec m (Obs_Swap i r) s = uwp_swap i r s"
| "exec m (Obs_Dtor i) s = uwp_dtor i s"
| "exec m (Obs_Expired i) s = map_option snd (expired i s)"
| "exec m (Obs_Try_Get i) s = map_option snd (try_get i s)"

fun run :: "nat \<Rightarrow> call list \<Rightarrow> state \<Rightarrow> state option" where
  "run m [] s = Some s"
| "run m (c # cs) s = (case exec m c s of None \<Rightarrow> None | Some s' \<Rightarrow> run m cs s')"

section \<open>Handles and their count\<close>

text \<open>
  The handle of an object slot is the \<open>pc\<close> of the object in it, if there is one.  The
  number of handles on the control block at \<open>a\<close> is the number of live owners and
  live observers whose \<open>pc\<close> is \<open>a\<close>; it is an integer, to be compared with
  \<open>ref_count\<close>.
\<close>

definition owner_cell :: "weakable_unique_ptr option \<Rightarrow> addr option" where
  "owner_cell x = (case x of None \<Rightarrow> None | Some w \<Rightarrow> pc w)"

definition observer_cell :: "unique_weak_ptr option \<Rightarrow> addr option" where
  "observer_cell x = (case x of None \<Rightarrow> None | Some w \<Rightarrow> w_pc w)"

definition owner_refs :: "weakable_unique_ptr option list \<Rightarrow> addr \<Rightarrow> int" where
  "owner_refs xs a = int (count_list (map owner_cell xs) (Some a))"

definition observer_refs :: "unique_weak_ptr option list \<Rightarrow> addr \<Rightarrow> int" where
  "observer_refs xs a = int (count_list (map observer_cell xs) (Some a))"

definition handles :: "state \<Rightarrow> addr \<Rightarrow> int" where
  "handles s a = owner_refs (owners s) a + observer_refs (observers s) a"

text \<open>
  Four facts hold between the calls of a client program.  The count of every live
  control block is the number of handles on it, and only a block with a handle is live
  (\<open>inv_refs\<close>).  The count of every live control block is a value of the type
  \<open>long\<close> (\<open>inv_long\<close>; with \<open>inv_refs\<close> it is between 1 and \<open>LONG_MAX\<close>).  No
  control block has two owners (\<open>inv_uniq\<close>).  An owner without
  a control block holds the null pointer, and the control block of an owner is live and
  stores the owner's \<open>px\<close> (\<open>inv_link\<close>).
\<close>

definition inv_refs :: "state \<Rightarrow> bool" where
  "inv_refs s \<longleftrightarrow>
     (\<forall>a. (cell s a = None \<longrightarrow> handles s a = 0) \<and>
          (\<forall>cb. cell s a = Some cb \<longrightarrow> 0 < handles s a \<and> ref_count cb = handles s a))"

definition inv_long :: "nat \<Rightarrow> state \<Rightarrow> bool" where
  "inv_long m s \<longleftrightarrow> (\<forall>a cb. cell s a = Some cb \<longrightarrow> ref_count cb \<le> LONG_MAX m)"

definition inv_uniq :: "state \<Rightarrow> bool" where
  "inv_uniq s \<longleftrightarrow> (\<forall>a. owner_refs (owners s) a \<le> 1)"

definition linked :: "state \<Rightarrow> nat \<Rightarrow> bool" where
  "linked s i \<longleftrightarrow>
     (\<forall>w. owner s i = Some w \<longrightarrow>
        (pc w = None \<longrightarrow> px w = 0) \<and>
        (\<forall>a. pc w = Some a \<longrightarrow> (\<exists>cb. cell s a = Some cb \<and> cb_px cb = px w)))"

definition inv_link :: "state \<Rightarrow> bool" where
  "inv_link s \<longleftrightarrow> (\<forall>i. linked s i)"

definition invariant :: "state \<Rightarrow> bool" where
  "invariant s \<longleftrightarrow> inv_refs s \<and> inv_uniq s \<and> inv_link s"

text \<open>
  Order of effects: \<open>precedes e e' es\<close> says that \<open>e\<close> occurs in \<open>es\<close> and that \<open>e'\<close>
  occurs after the first \<open>e\<close>, and not before it.
\<close>

fun precedes :: "event \<Rightarrow> event \<Rightarrow> event list \<Rightarrow> bool" where
  "precedes e e' [] = False"
| "precedes e e' (x # xs) =
     (if x = e' then False else if x = e then e' \<in> set xs else precedes e e' xs)"

text \<open>
  The calls that give the observer \<open>k\<close> another control block or end its lifetime: an
  assignment to it, a swap with it, and its destructor.
\<close>

fun rebinds :: "nat \<Rightarrow> call \<Rightarrow> bool" where
  "rebinds k (Obs_Assign i r) = (i = k)"
| "rebinds k (Obs_Assign_Owner i r) = (i = k)"
| "rebinds k (Obs_Move_Assign i r) = (i = k)"
| "rebinds k (Obs_Swap i r) = (i = k \<or> r = k)"
| "rebinds k (Obs_Dtor i) = (i = k)"
| "rebinds k _ = False"

text \<open>An observer that is alive and has no control block.\<close>

definition unbound :: "state \<Rightarrow> nat \<Rightarrow> bool" where
  "unbound s k \<longleftrightarrow> observer s k = Some \<lparr>w_pc = None\<rparr>"

subsection \<open>Counting in lists\<close>

lemma count_list_update_nat:
  "i < length xs \<Longrightarrow>
   count_list (xs[i := y]) a + (if xs ! i = a then 1 else 0) =
     count_list xs a + (if y = a then 1 else 0)"
proof (induction xs arbitrary: i)
  case Nil
  then show ?case by simp
next
  case (Cons x xs)
  show ?case
  proof (cases i)
    case 0
    then show ?thesis by simp
  next
    case (Suc j)
    with Cons.prems have "j < length xs" by simp
    from Cons.IH[OF this] Suc show ?thesis by (auto split: if_splits)
  qed
qed

lemma count_list_update:
  "i < length xs \<Longrightarrow>
   int (count_list (xs[i := y]) a) =
     int (count_list xs a) - (if xs ! i = a then 1 else 0) + (if y = a then 1 else 0)"
  using count_list_update_nat[of i xs y a] by (simp split: if_splits)

lemma count_list_nth_pos:
  "i < length xs \<Longrightarrow> xs ! i = a \<Longrightarrow> 0 < count_list xs a"
  by (metis count_list_0_iff nth_mem not_gr_zero)

lemma owner_cell_simps [simp]:
  "owner_cell None = None" "owner_cell (Some w) = pc w"
  by (simp_all add: owner_cell_def)

lemma observer_cell_simps [simp]:
  "observer_cell None = None" "observer_cell (Some v) = w_pc v"
  by (simp_all add: observer_cell_def)

lemma owner_refs_Nil [simp]: "owner_refs [] a = 0"
  by (simp add: owner_refs_def)

lemma observer_refs_Nil [simp]: "observer_refs [] a = 0"
  by (simp add: observer_refs_def)

lemma owner_refs_snoc [simp]:
  "owner_refs (xs @ [x]) a = owner_refs xs a + (if owner_cell x = Some a then 1 else 0)"
  by (simp add: owner_refs_def)

lemma observer_refs_snoc [simp]:
  "observer_refs (xs @ [x]) a =
     observer_refs xs a + (if observer_cell x = Some a then 1 else 0)"
  by (simp add: observer_refs_def)

lemma owner_refs_update:
  "i < length xs \<Longrightarrow>
   owner_refs (xs[i := x]) a =
     owner_refs xs a - (if owner_cell (xs ! i) = Some a then 1 else 0)
       + (if owner_cell x = Some a then 1 else 0)"
  by (simp add: owner_refs_def count_list_update map_update)

lemma observer_refs_update:
  "i < length xs \<Longrightarrow>
   observer_refs (xs[i := x]) a =
     observer_refs xs a - (if observer_cell (xs ! i) = Some a then 1 else 0)
       + (if observer_cell x = Some a then 1 else 0)"
  by (simp add: observer_refs_def count_list_update map_update)

lemma owner_refs_nonneg: "0 \<le> owner_refs xs a"
  by (simp add: owner_refs_def)

lemma observer_refs_nonneg: "0 \<le> observer_refs xs a"
  by (simp add: observer_refs_def)

lemma owner_refs_pos:
  "i < length xs \<Longrightarrow> owner_cell (xs ! i) = Some a \<Longrightarrow> 0 < owner_refs xs a"
  unfolding owner_refs_def
  by (auto intro!: count_list_nth_pos[where i = i])

lemma observer_refs_pos:
  "i < length xs \<Longrightarrow> observer_cell (xs ! i) = Some a \<Longrightarrow> 0 < observer_refs xs a"
  unfolding observer_refs_def
  by (auto intro!: count_list_nth_pos[where i = i])

subsection \<open>Reading the state\<close>

lemma owner_length: "owner s i = Some w \<Longrightarrow> i < length (owners s)"
  by (simp add: owner_def split: if_splits)

lemma owner_nth: "owner s i = Some w \<Longrightarrow> owners s ! i = Some w"
  by (simp add: owner_def split: if_splits)

lemma observer_length: "observer s i = Some v \<Longrightarrow> i < length (observers s)"
  by (simp add: observer_def split: if_splits)

lemma observer_nth: "observer s i = Some v \<Longrightarrow> observers s ! i = Some v"
  by (simp add: observer_def split: if_splits)

lemma cell_length: "cell s a = Some cb \<Longrightarrow> a < length (heap s)"
  by (simp add: cell_def split: if_splits)

lemma cell_nth: "cell s a = Some cb \<Longrightarrow> heap s ! a = Some cb"
  by (simp add: cell_def split: if_splits)

lemma cell_frame [simp]:
  "cell (s\<lparr>owners := x\<rparr>) = cell s"
  "cell (s\<lparr>observers := y\<rparr>) = cell s"
  "cell (s\<lparr>trace := z\<rparr>) = cell s"
  by (simp_all add: cell_def fun_eq_iff)

lemma cb_get_frame [simp]:
  "cb_get a (s\<lparr>owners := x\<rparr>) = cb_get a s"
  "cb_get a (s\<lparr>observers := y\<rparr>) = cb_get a s"
  "cb_get a (s\<lparr>trace := z\<rparr>) = cb_get a s"
  by (simp_all add: cb_get_def)

lemma owner_frame [simp]:
  "owner (s\<lparr>heap := h\<rparr>) = owner s"
  "owner (s\<lparr>observers := y\<rparr>) = owner s"
  "owner (s\<lparr>trace := z\<rparr>) = owner s"
  by (simp_all add: owner_def fun_eq_iff)

lemma observer_frame [simp]:
  "observer (s\<lparr>heap := h\<rparr>) = observer s"
  "observer (s\<lparr>owners := x\<rparr>) = observer s"
  "observer (s\<lparr>trace := z\<rparr>) = observer s"
  by (simp_all add: observer_def fun_eq_iff)

lemma handles_frame [simp]:
  "handles (s\<lparr>heap := h\<rparr>) = handles s"
  "handles (s\<lparr>trace := z\<rparr>) = handles s"
  by (simp_all add: handles_def fun_eq_iff)

lemma cell_heap_update:
  "cell (s\<lparr>heap := (heap s)[a := c]\<rparr>) b =
     (if b = a \<and> a < length (heap s) then c else cell s b)"
  by (simp add: cell_def)

lemma cell_heap_snoc:
  "cell (s\<lparr>heap := heap s @ [c]\<rparr>) b =
     (if b = length (heap s) then c else cell s b)"
  by (simp add: cell_def nth_append)

lemma owner_owners_update:
  "owner (s\<lparr>owners := (owners s)[i := x]\<rparr>) j =
     (if j = i \<and> i < length (owners s) then x else owner s j)"
  by (simp add: owner_def)

lemma owner_owners_snoc:
  "owner (s\<lparr>owners := owners s @ [x]\<rparr>) j =
     (if j = length (owners s) then x else owner s j)"
  by (simp add: owner_def nth_append)

lemma observer_observers_update:
  "observer (s\<lparr>observers := (observers s)[i := x]\<rparr>) j =
     (if j = i \<and> i < length (observers s) then x else observer s j)"
  by (simp add: observer_def)

lemma observer_observers_snoc:
  "observer (s\<lparr>observers := observers s @ [x]\<rparr>) j =
     (if j = length (observers s) then x else observer s j)"
  by (simp add: observer_def nth_append)

lemma handles_pos_owner:
  "owner s i = Some w \<Longrightarrow> pc w = Some a \<Longrightarrow> 0 < handles s a"
  using owner_refs_pos[of i "owners s" a] observer_refs_nonneg[of "observers s" a]
  by (simp add: handles_def owner_length owner_nth)

lemma handles_pos_observer:
  "observer s i = Some v \<Longrightarrow> w_pc v = Some a \<Longrightarrow> 0 < handles s a"
  using observer_refs_pos[of i "observers s" a] owner_refs_nonneg[of "owners s" a]
  by (simp add: handles_def observer_length observer_nth)

lemma inv_refs_live:
  assumes "inv_refs s" and "0 < handles s a"
  shows "\<exists>cb. cell s a = Some cb \<and> ref_count cb = handles s a"
  using assms by (cases "cell s a") (auto simp: inv_refs_def)

lemma inv_refs_dead:
  "inv_refs s \<Longrightarrow> cell s a = None \<Longrightarrow> handles s a = 0"
  by (auto simp: inv_refs_def)

lemma inv_refs_cell:
  "inv_refs s \<Longrightarrow> cell s a = Some cb \<Longrightarrow> 0 < handles s a \<and> ref_count cb = handles s a"
  by (auto simp: inv_refs_def)

section \<open>What the member functions do to the state\<close>

lemma wup_default_eq:
  "wup_default s =
     Some (length (owners s),
           s\<lparr>owners := owners s @ [Some \<lparr>px = 0, pd = default_deleter, pc = None\<rparr>]\<rparr>)"
  by (simp add: wup_default_def new_owner_def)

lemma LONG_MAX_pos: "0 < LONG_MAX m" "1 < LONG_MAX m" "2 \<le> LONG_MAX m"
  by (simp_all add: LONG_MAX_def)

lemma wup_ctor_eq:
  "wup_ctor m p d s =
     Some (length (owners s),
           s\<lparr>heap := heap s @ [Some \<lparr>ref_count = 1, cb_px = p\<rparr>],
             owners := owners s @ [Some \<lparr>px = p, pd = d, pc = Some (length (heap s))\<rparr>],
             trace := trace s @ [Alloc (length (heap s))]\<rparr>)"
  by (simp add: wup_ctor_def new_control_block_def ip_copy_def intrusive_ptr_add_ref_def
      emit_def cell_def put_cell_def new_owner_def LONG_MAX_pos)

lemma wup_move_eq:
  "owner s r = Some w \<Longrightarrow>
   wup_move r s =
     Some (length (owners s),
           s\<lparr>owners := (owners s)[r := Some (w\<lparr>px := 0, pc := None\<rparr>)]
                        @ [Some \<lparr>px = px w, pd = pd w, pc = pc w\<rparr>]\<rparr>)"
  by (simp add: wup_move_def new_owner_def put_owner_def owner_length list_update_append1)

lemma wup_swap_eq:
  "owner s i = Some a \<Longrightarrow> owner s r = Some b \<Longrightarrow>
   wup_swap i r s = Some (s\<lparr>owners := (owners s)[i := Some b, r := Some a]\<rparr>)"
  by (simp add: wup_swap_def put_owner_def)

lemma wup_dtor_effect:
  assumes "owner s i = Some w" and "inv_refs s"
  shows "\<exists>s'. wup_dtor i s = Some s' \<and>
     owners s' = (owners s)[i := None] \<and>
     observers s' = observers s \<and>
     length (heap s') = length (heap s) \<and>
     (\<forall>b. cell s' b =
        (if pc w = Some b
         then (if handles s b = 1 then None
               else Some \<lparr>ref_count = handles s b - 1, cb_px = 0\<rparr>)
         else cell s b)) \<and>
     trace s' = trace s
        @ (if px w \<noteq> 0 then [Destroy (pd w) (px w)] else [])
        @ (case pc w of None \<Rightarrow> []
           | Some a \<Rightarrow> Clear a # (if handles s a = 1 then [Free a] else []))"
proof (cases "pc w")
  case None
  with assms show ?thesis
    by (simp add: wup_dtor_def ip_dtor_def put_owner_def emit_def cell_def)
next
  case (Some a)
  with assms(1) have "0 < handles s a" by (rule handles_pos_owner)
  with assms(2) obtain cb where cb: "cell s a = Some cb" "ref_count cb = handles s a"
    by (blast dest: inv_refs_live)
  then have len: "a < length (heap s)" by (simp add: cell_length)
  with assms(1) Some cb show ?thesis
    by (simp add: wup_dtor_def ip_dtor_def cb_reset_def intrusive_ptr_release_def
        put_owner_def put_cell_def emit_def cell_def)
qed

lemma uwp_default_eq:
  "uwp_default s =
     Some (length (observers s), s\<lparr>observers := observers s @ [Some \<lparr>w_pc = None\<rparr>]\<rparr>)"
  by (simp add: uwp_default_def new_observer_def)

lemma ip_copy_result:
  assumes "ip_copy m h s = Some s'"
  shows "s' = (case h of None \<Rightarrow> s
           | Some a \<Rightarrow> s\<lparr>heap := (heap s)[a := map_option (\<lambda>cb. cb\<lparr>ref_count := ref_count cb + 1\<rparr>) (cell s a)]\<rparr>)"
    and "\<And>a. h = Some a \<Longrightarrow> \<exists>cb. cell s a = Some cb \<and> ref_count cb < LONG_MAX m"
  using assms
  by (auto simp: ip_copy_def intrusive_ptr_add_ref_def put_cell_def
      split: option.splits if_splits)

lemma ip_copy_returns:
  assumes "h = None \<or> (\<exists>a cb. h = Some a \<and> cell s a = Some cb \<and> ref_count cb < LONG_MAX m)"
  shows "\<exists>s'. ip_copy m h s = Some s'"
  using assms
  by (auto simp: ip_copy_def intrusive_ptr_add_ref_def)

lemma uwp_copy_eq:
  assumes "observer s r = Some v" and "uwp_copy m r s = Some (t, s')"
  shows "t = length (observers s)"
    and "s' = (case w_pc v of None \<Rightarrow> s
      | Some a \<Rightarrow> s\<lparr>heap := (heap s)[a := map_option (\<lambda>cb. cb\<lparr>ref_count := ref_count cb + 1\<rparr>) (cell s a)]\<rparr>)
     \<lparr>observers := observers s @ [Some \<lparr>w_pc = w_pc v\<rparr>]\<rparr>"
proof -
  from assms obtain s1 where s1: "ip_copy m (w_pc v) s = Some s1"
    and r: "(t, s') = new_observer \<lparr>w_pc = w_pc v\<rparr> s1"
    by (auto simp: uwp_copy_def bind_eq_Some_conv)
  from r ip_copy_result(1)[OF s1] show "t = length (observers s)"
    by (auto simp: new_observer_def split: option.splits)
  from r ip_copy_result(1)[OF s1] show "s' = (case w_pc v of None \<Rightarrow> s
      | Some a \<Rightarrow> s\<lparr>heap := (heap s)[a := map_option (\<lambda>cb. cb\<lparr>ref_count := ref_count cb + 1\<rparr>) (cell s a)]\<rparr>)
     \<lparr>observers := observers s @ [Some \<lparr>w_pc = w_pc v\<rparr>]\<rparr>"
    by (auto simp: new_observer_def split: option.splits)
qed

lemma uwp_from_owner_eq:
  assumes "owner s r = Some w" and "uwp_from_owner m r s = Some (t, s')"
  shows "t = length (observers s)"
    and "s' = (case pc w of None \<Rightarrow> s
      | Some a \<Rightarrow> s\<lparr>heap := (heap s)[a := map_option (\<lambda>cb. cb\<lparr>ref_count := ref_count cb + 1\<rparr>) (cell s a)]\<rparr>)
     \<lparr>observers := observers s @ [Some \<lparr>w_pc = pc w\<rparr>]\<rparr>"
proof -
  from assms obtain s1 where s1: "ip_copy m (pc w) s = Some s1"
    and r: "(t, s') = new_observer \<lparr>w_pc = pc w\<rparr> s1"
    by (auto simp: uwp_from_owner_def bind_eq_Some_conv)
  from r ip_copy_result(1)[OF s1] show "t = length (observers s)"
    by (auto simp: new_observer_def split: option.splits)
  from r ip_copy_result(1)[OF s1] show "s' = (case pc w of None \<Rightarrow> s
      | Some a \<Rightarrow> s\<lparr>heap := (heap s)[a := map_option (\<lambda>cb. cb\<lparr>ref_count := ref_count cb + 1\<rparr>) (cell s a)]\<rparr>)
     \<lparr>observers := observers s @ [Some \<lparr>w_pc = pc w\<rparr>]\<rparr>"
    by (auto simp: new_observer_def split: option.splits)
qed

lemma uwp_from_owner_returns:
  assumes "owner s r = Some w" and "inv_refs s"
    and "\<And>a. pc w = Some a \<Longrightarrow> handles s a < LONG_MAX m"
  shows "\<exists>s'. uwp_from_owner m r s = Some (length (observers s), s')"
proof -
  have "pc w = None \<or> (\<exists>a cb. pc w = Some a \<and> cell s a = Some cb \<and> ref_count cb < LONG_MAX m)"
  proof (cases "pc w")
    case None
    then show ?thesis by simp
  next
    case (Some a)
    with assms(1) have "0 < handles s a" by (rule handles_pos_owner)
    with assms(2) obtain cb where "cell s a = Some cb" "ref_count cb = handles s a"
      by (blast dest: inv_refs_live)
    with Some assms(3)[OF Some] show ?thesis by simp
  qed
  from ip_copy_returns[OF this] obtain s1 where s1: "ip_copy m (pc w) s = Some s1"
    by blast
  from ip_copy_result(1)[OF s1] have "observers s1 = observers s"
    by (simp split: option.splits)
  with s1 assms(1) show ?thesis
    by (simp add: uwp_from_owner_def new_observer_def)
qed

lemma uwp_move_eq:
  "observer s r = Some v \<Longrightarrow>
   uwp_move r s =
     Some (length (observers s),
           s\<lparr>observers := (observers s)[r := Some (v\<lparr>w_pc := None\<rparr>)]
                           @ [Some \<lparr>w_pc = w_pc v\<rparr>]\<rparr>)"
  by (simp add: uwp_move_def new_observer_def put_observer_def observer_length
      list_update_append1)

lemma uwp_swap_eq:
  "observer s i = Some a \<Longrightarrow> observer s r = Some b \<Longrightarrow>
   uwp_swap i r s = Some (s\<lparr>observers := (observers s)[i := Some b, r := Some a]\<rparr>)"
  by (simp add: uwp_swap_def put_observer_def)

lemma uwp_dtor_effect:
  assumes "observer s i = Some v" and "inv_refs s"
  shows "\<exists>s'. uwp_dtor i s = Some s' \<and>
     owners s' = owners s \<and>
     observers s' = (observers s)[i := None] \<and>
     length (heap s') = length (heap s) \<and>
     (\<forall>b. cell s' b =
        (if w_pc v = Some b
         then (if handles s b = 1 then None
               else map_option (\<lambda>cb. cb\<lparr>ref_count := ref_count cb - 1\<rparr>) (cell s b))
         else cell s b)) \<and>
     trace s' = trace s
        @ (case w_pc v of None \<Rightarrow> []
           | Some a \<Rightarrow> if handles s a = 1 then [Free a] else [])"
proof (cases "w_pc v")
  case None
  with assms show ?thesis
    by (simp add: uwp_dtor_def ip_dtor_def put_observer_def cell_def)
next
  case (Some a)
  with assms(1) have "0 < handles s a" by (rule handles_pos_observer)
  with assms(2) obtain cb where cb: "cell s a = Some cb" "ref_count cb = handles s a"
    by (blast dest: inv_refs_live)
  then have len: "a < length (heap s)" by (simp add: cell_length)
  with assms(1) Some cb show ?thesis
    by (simp add: uwp_dtor_def ip_dtor_def intrusive_ptr_release_def
        put_observer_def put_cell_def emit_def cell_def cb_get_def)
qed

section \<open>The invariants are kept\<close>

lemma inv_refs_same:
  assumes "inv_refs s" and "\<And>a. cell s' a = cell s a" and "\<And>a. handles s' a = handles s a"
  shows "inv_refs s'"
  using assms by (simp add: inv_refs_def)

lemma owner_refs_swap:
  assumes "i < length xs" and "r < length xs"
  shows "owner_refs (xs[i := xs ! r, r := xs ! i]) a = owner_refs xs a"
proof (cases "i = r")
  case True
  then show ?thesis by simp
next
  case False
  with assms show ?thesis
    by (simp add: owner_refs_update)
qed

lemma observer_refs_swap:
  assumes "i < length xs" and "r < length xs"
  shows "observer_refs (xs[i := xs ! r, r := xs ! i]) a = observer_refs xs a"
proof (cases "i = r")
  case True
  then show ?thesis by simp
next
  case False
  with assms show ?thesis
    by (simp add: observer_refs_update)
qed

lemma owner_refs_two:
  assumes "i < length xs" and "j < length xs" and "i \<noteq> j"
    and "owner_cell (xs ! i) = Some a" and "owner_cell (xs ! j) = Some a"
  shows "2 \<le> owner_refs xs a"
proof -
  have "owner_refs (xs[i := None]) a = owner_refs xs a - 1"
    using assms by (simp add: owner_refs_update)
  moreover have "0 < owner_refs (xs[i := None]) a"
    using assms by (intro owner_refs_pos[where i = j]) simp_all
  ultimately show ?thesis by simp
qed

lemma fresh_cell_no_handles:
  "inv_refs s \<Longrightarrow> handles s (length (heap s)) = 0"
  by (rule inv_refs_dead) (simp_all add: cell_def)

lemma fresh_cell_no_owner:
  "inv_refs s \<Longrightarrow> owner_refs (owners s) (length (heap s)) = 0"
  using fresh_cell_no_handles[of s] owner_refs_nonneg[of "owners s" "length (heap s)"]
    observer_refs_nonneg[of "observers s" "length (heap s)"]
  by (simp add: handles_def)

subsection \<open>Owners\<close>

lemma wup_default_refs:
  assumes "inv_refs s" and "wup_default s = Some (t, s')"
  shows "inv_refs s'"
  using assms(2) unfolding wup_default_eq
  by (auto intro!: inv_refs_same[OF assms(1)] simp: handles_def)

lemma wup_default_uniq:
  assumes "inv_uniq s" and "wup_default s = Some (t, s')"
  shows "inv_uniq s'"
  using assms unfolding wup_default_eq by (auto simp: inv_uniq_def)

lemma wup_ctor_refs:
  assumes "inv_refs s" and "wup_ctor m p d s = Some (t, s')"
  shows "inv_refs s'"
proof -
  have s': "s' = s\<lparr>heap := heap s @ [Some \<lparr>ref_count = 1, cb_px = p\<rparr>],
             owners := owners s @ [Some \<lparr>px = p, pd = d, pc = Some (length (heap s))\<rparr>],
             trace := trace s @ [Alloc (length (heap s))]\<rparr>"
    using assms(2) unfolding wup_ctor_eq by simp
  show ?thesis
    using assms(1) fresh_cell_no_handles[OF assms(1)]
    by (auto simp: inv_refs_def s' cell_def handles_def nth_append split: if_splits)
qed

lemma wup_ctor_uniq:
  assumes "inv_refs s" and "inv_uniq s" and "wup_ctor m p d s = Some (t, s')"
  shows "inv_uniq s'"
  using assms(2,3) fresh_cell_no_owner[OF assms(1)] unfolding wup_ctor_eq
  by (auto simp: inv_uniq_def)

lemma wup_move_handles:
  assumes "owner s r = Some w" and "wup_move r s = Some (t, s')"
  shows "owner_refs (owners s') a = owner_refs (owners s) a"
    and "observers s' = observers s" and "heap s' = heap s" and "trace s' = trace s"
  using assms(2) unfolding wup_move_eq[OF assms(1)]
  by (auto simp: owner_refs_update owner_length[OF assms(1)] owner_nth[OF assms(1)])

lemma wup_move_refs:
  assumes "inv_refs s" and "wup_move r s = Some (t, s')"
  shows "inv_refs s'"
proof -
  from assms(2) obtain w where w: "owner s r = Some w"
    by (auto simp: wup_move_def bind_eq_Some_conv)
  show ?thesis
    using wup_move_handles[OF w assms(2)]
    by (intro inv_refs_same[OF assms(1)]) (simp_all add: handles_def cell_def)
qed

lemma wup_move_uniq:
  assumes "inv_uniq s" and "wup_move r s = Some (t, s')"
  shows "inv_uniq s'"
proof -
  from assms(2) obtain w where w: "owner s r = Some w"
    by (auto simp: wup_move_def bind_eq_Some_conv)
  show ?thesis
    using wup_move_handles(1)[OF w assms(2)] assms(1) by (simp add: inv_uniq_def)
qed

lemma wup_swap_handles:
  assumes "wup_swap i r s = Some s'"
  shows "owner_refs (owners s') a = owner_refs (owners s) a"
    and "observers s' = observers s" and "heap s' = heap s" and "trace s' = trace s"
proof -
  from assms obtain x y where xy: "owner s i = Some x" "owner s r = Some y"
    by (auto simp: wup_swap_def bind_eq_Some_conv)
  then have s': "s' = s\<lparr>owners := (owners s)[i := owners s ! r, r := owners s ! i]\<rparr>"
    using assms by (simp add: wup_swap_eq owner_nth)
  show "owner_refs (owners s') a = owner_refs (owners s) a"
    using xy by (simp add: s' owner_refs_swap owner_length)
  show "observers s' = observers s" "heap s' = heap s" "trace s' = trace s"
    by (simp_all add: s')
qed

lemma wup_swap_refs:
  assumes "inv_refs s" and "wup_swap i r s = Some s'"
  shows "inv_refs s'"
  using wup_swap_handles[OF assms(2)]
  by (intro inv_refs_same[OF assms(1)]) (simp_all add: handles_def cell_def)

lemma wup_swap_uniq:
  assumes "inv_uniq s" and "wup_swap i r s = Some s'"
  shows "inv_uniq s'"
  using wup_swap_handles(1)[OF assms(2)] assms(1) by (simp add: inv_uniq_def)

lemma wup_dtor_refs:
  assumes "inv_refs s" and "wup_dtor i s = Some s'"
  shows "inv_refs s'"
proof -
  from assms(2) obtain w where w: "owner s i = Some w"
    by (auto simp: wup_dtor_def bind_eq_Some_conv)
  from wup_dtor_effect[OF w assms(1)] assms(2) have
    own: "owners s' = (owners s)[i := None]" and obs: "observers s' = observers s" and
    cel: "\<And>b. cell s' b =
        (if pc w = Some b
         then (if handles s b = 1 then None
               else Some \<lparr>ref_count = handles s b - 1, cb_px = 0\<rparr>)
         else cell s b)"
    by auto
  have h: "handles s' b = handles s b - (if pc w = Some b then 1 else 0)" for b
    using w by (simp add: handles_def own obs owner_refs_update owner_length owner_nth)
  have pos: "0 < handles s b" if "pc w = Some b" for b
    using w that by (rule handles_pos_owner)
  show ?thesis
    unfolding inv_refs_def
  proof (rule allI, rule conjI)
    fix a
    show "cell s' a = None \<longrightarrow> handles s' a = 0"
      using assms(1) by (auto simp: cel h inv_refs_def split: if_splits)
    show "\<forall>cb. cell s' a = Some cb \<longrightarrow> 0 < handles s' a \<and> ref_count cb = handles s' a"
      using assms(1) pos[of a] by (auto simp: cel h inv_refs_def split: if_splits)
  qed
qed

lemma wup_dtor_uniq:
  assumes "inv_refs s" and "inv_uniq s" and "wup_dtor i s = Some s'"
  shows "inv_uniq s'"
proof -
  from assms(3) obtain w where w: "owner s i = Some w"
    by (auto simp: wup_dtor_def bind_eq_Some_conv)
  from wup_dtor_effect[OF w assms(1)] assms(3) have
    own: "owners s' = (owners s)[i := None]"
    by auto
  have "owner_refs (owners s') b \<le> owner_refs (owners s) b" for b
    using w by (simp add: own owner_refs_update owner_length owner_nth)
  with assms(2) show ?thesis
    unfolding inv_uniq_def by (meson order_trans)
qed

text \<open>\<open>boost::exchange( tmp.px, nullptr )\<close> in \<open>release\<close> writes the member \<open>px\<close> only.\<close>

lemma put_px_handles:
  assumes "owner s t = Some w"
  shows "owner_refs (owners (put_owner t (Some (w\<lparr>px := q\<rparr>)) s)) a = owner_refs (owners s) a"
  using assms
  by (simp add: put_owner_def owner_refs_update owner_length owner_nth)

lemma put_px_refs:
  assumes "inv_refs s" and "owner s t = Some w"
  shows "inv_refs (put_owner t (Some (w\<lparr>px := q\<rparr>)) s)"
  using put_px_handles[OF assms(2)]
  by (intro inv_refs_same[OF assms(1)]) (simp_all add: handles_def put_owner_def)

lemma put_px_uniq:
  assumes "inv_uniq s" and "owner s t = Some w"
  shows "inv_uniq (put_owner t (Some (w\<lparr>px := q\<rparr>)) s)"
  using put_px_handles[OF assms(2)] assms(1) by (simp add: inv_uniq_def)

subsection \<open>Observers\<close>

lemma uwp_default_refs:
  assumes "inv_refs s" and "uwp_default s = Some (t, s')"
  shows "inv_refs s'"
  using assms(2) unfolding uwp_default_eq
  by (auto intro!: inv_refs_same[OF assms(1)] simp: handles_def)

lemma new_handle_refs:
  assumes "inv_refs s" and "h = None \<or> (\<exists>a. h = Some a \<and> 0 < handles s a)"
    and "s' = (case h of None \<Rightarrow> s
      | Some a \<Rightarrow> s\<lparr>heap := (heap s)[a := map_option (\<lambda>cb. cb\<lparr>ref_count := ref_count cb + 1\<rparr>) (cell s a)]\<rparr>)
     \<lparr>observers := observers s @ [Some \<lparr>w_pc = h\<rparr>]\<rparr>"
  shows "inv_refs s'"
proof (cases h)
  case None
  with assms(3) show ?thesis
    by (auto intro!: inv_refs_same[OF assms(1)] simp: handles_def)
next
  case (Some a)
  with assms(2) have "0 < handles s a" by simp
  with assms(1) obtain cb where cb: "cell s a = Some cb" "ref_count cb = handles s a"
    by (blast dest: inv_refs_live)
  then have len: "a < length (heap s)" by (simp add: cell_length)
  have h: "handles s' b = handles s b + (if b = a then 1 else 0)" for b
    by (auto simp: assms(3) Some handles_def)
  have c: "cell s' b = (if b = a then Some (cb\<lparr>ref_count := ref_count cb + 1\<rparr>) else cell s b)" for b
    using cb len by (simp add: assms(3) Some cell_heap_update)
  show ?thesis
    unfolding inv_refs_def
  proof (rule allI, rule conjI)
    fix b
    show "cell s' b = None \<longrightarrow> handles s' b = 0"
      using assms(1) by (auto simp: inv_refs_def h c)
    show "\<forall>cb'. cell s' b = Some cb' \<longrightarrow> 0 < handles s' b \<and> ref_count cb' = handles s' b"
    proof (cases "b = a")
      case True
      with \<open>0 < handles s a\<close> cb(2) show ?thesis by (simp add: h c)
    next
      case False
      with assms(1) show ?thesis by (simp add: inv_refs_def h c)
    qed
  qed
qed

lemma uwp_copy_refs:
  assumes "inv_refs s" and "uwp_copy m r s = Some (t, s')"
  shows "inv_refs s'"
proof -
  from assms(2) obtain v where v: "observer s r = Some v"
    by (auto simp: uwp_copy_def bind_eq_Some_conv)
  have "w_pc v = None \<or> (\<exists>a. w_pc v = Some a \<and> 0 < handles s a)"
    using v by (cases "w_pc v") (auto dest: handles_pos_observer)
  from this uwp_copy_eq(2)[OF v assms(2)] show ?thesis
    by (rule new_handle_refs[OF assms(1)])
qed

lemma uwp_from_owner_refs:
  assumes "inv_refs s" and "uwp_from_owner m r s = Some (t, s')"
  shows "inv_refs s'"
proof -
  from assms(2) obtain w where w: "owner s r = Some w"
    by (auto simp: uwp_from_owner_def bind_eq_Some_conv)
  have "pc w = None \<or> (\<exists>a. pc w = Some a \<and> 0 < handles s a)"
    using w by (cases "pc w") (auto dest: handles_pos_owner)
  from this uwp_from_owner_eq(2)[OF w assms(2)] show ?thesis
    by (rule new_handle_refs[OF assms(1)])
qed

lemma uwp_move_refs:
  assumes "inv_refs s" and "uwp_move r s = Some (t, s')"
  shows "inv_refs s'"
proof -
  from assms(2) obtain v where v: "observer s r = Some v"
    by (auto simp: uwp_move_def bind_eq_Some_conv)
  show ?thesis
    using assms(2) unfolding uwp_move_eq[OF v]
    by (auto intro!: inv_refs_same[OF assms(1)]
        simp: handles_def observer_refs_update observer_length[OF v] observer_nth[OF v])
qed

lemma uwp_swap_refs:
  assumes "inv_refs s" and "uwp_swap i r s = Some s'"
  shows "inv_refs s'"
proof -
  from assms(2) obtain x y where xy: "observer s i = Some x" "observer s r = Some y"
    by (auto simp: uwp_swap_def bind_eq_Some_conv)
  then have s': "s' = s\<lparr>observers := (observers s)[i := observers s ! r, r := observers s ! i]\<rparr>"
    using assms(2) by (simp add: uwp_swap_eq observer_nth)
  show ?thesis
    using xy
    by (intro inv_refs_same[OF assms(1)])
      (simp_all add: s' handles_def observer_refs_swap observer_length)
qed

lemma uwp_dtor_refs:
  assumes "inv_refs s" and "uwp_dtor i s = Some s'"
  shows "inv_refs s'"
proof -
  from assms(2) obtain v where v: "observer s i = Some v"
    by (auto simp: uwp_dtor_def bind_eq_Some_conv)
  from uwp_dtor_effect[OF v assms(1)] assms(2) have
    own: "owners s' = owners s" and obs: "observers s' = (observers s)[i := None]" and
    cel: "\<And>b. cell s' b =
        (if w_pc v = Some b
         then (if handles s b = 1 then None
               else map_option (\<lambda>cb. cb\<lparr>ref_count := ref_count cb - 1\<rparr>) (cell s b))
         else cell s b)"
    by auto
  have h: "handles s' b = handles s b - (if w_pc v = Some b then 1 else 0)" for b
    using v by (simp add: handles_def own obs observer_refs_update observer_length observer_nth)
  have pos: "0 < handles s b" if "w_pc v = Some b" for b
    using v that by (rule handles_pos_observer)
  show ?thesis
    unfolding inv_refs_def
  proof (rule allI, rule conjI)
    fix a
    show "cell s' a = None \<longrightarrow> handles s' a = 0"
      using assms(1) pos[of a] by (auto simp: cel h inv_refs_def split: if_splits)
    show "\<forall>cb. cell s' a = Some cb \<longrightarrow> 0 < handles s' a \<and> ref_count cb = handles s' a"
      using assms(1) pos[of a] by (auto simp: cel h inv_refs_def split: if_splits)
  qed
qed

subsection \<open>The link between an owner and its control block\<close>

lemma inv_linkD:
  "inv_link s \<Longrightarrow> owner s i = Some w \<Longrightarrow> pc w = Some a \<Longrightarrow>
   \<exists>cb. cell s a = Some cb \<and> cb_px cb = px w"
  unfolding inv_link_def linked_def by blast

lemma inv_linkN:
  "inv_link s \<Longrightarrow> owner s i = Some w \<Longrightarrow> pc w = None \<Longrightarrow> px w = 0"
  unfolding inv_link_def linked_def by blast

lemma inv_linkI:
  assumes "\<And>i w. owner s i = Some w \<Longrightarrow> pc w = None \<Longrightarrow> px w = 0"
    and "\<And>i w a. owner s i = Some w \<Longrightarrow> pc w = Some a \<Longrightarrow>
           \<exists>cb. cell s a = Some cb \<and> cb_px cb = px w"
  shows "inv_link s"
  unfolding inv_link_def linked_def using assms by blast

lemma inv_link_same:
  assumes "inv_link s" and "owners s' = owners s"
    and "\<And>i w a cb. owner s i = Some w \<Longrightarrow> pc w = Some a \<Longrightarrow> cell s a = Some cb \<Longrightarrow>
           \<exists>cb'. cell s' a = Some cb' \<and> cb_px cb' = cb_px cb"
  shows "inv_link s'"
proof (rule inv_linkI)
  fix i w
  assume w': "owner s' i = Some w" and n: "pc w = None"
  from w' have "owner s i = Some w" unfolding owner_def assms(2) .
  with assms(1) n show "px w = 0" by (blast dest: inv_linkN)
next
  fix i w a
  assume w': "owner s' i = Some w" and a: "pc w = Some a"
  from w' have w: "owner s i = Some w" unfolding owner_def assms(2) .
  with assms(1) a obtain cb where "cell s a = Some cb" "cb_px cb = px w"
    by (blast dest: inv_linkD)
  with assms(3)[OF w a] show "\<exists>cb. cell s' a = Some cb \<and> cb_px cb = px w"
    by auto
qed

lemma wup_default_link:
  assumes "inv_link s" and "wup_default s = Some (t, s')"
  shows "inv_link s'"
  using assms unfolding wup_default_eq
  by (auto simp: inv_link_def linked_def owner_owners_snoc split: if_splits)

lemma wup_ctor_link:
  assumes "inv_link s" and "wup_ctor m p d s = Some (t, s')"
  shows "inv_link s'"
proof -
  have s': "s' = s\<lparr>heap := heap s @ [Some \<lparr>ref_count = 1, cb_px = p\<rparr>],
             owners := owners s @ [Some \<lparr>px = p, pd = d, pc = Some (length (heap s))\<rparr>],
             trace := trace s @ [Alloc (length (heap s))]\<rparr>"
    using assms(2) unfolding wup_ctor_eq by simp
  have o: "owner s' j = (if j = length (owners s)
      then Some \<lparr>px = p, pd = d, pc = Some (length (heap s))\<rparr> else owner s j)" for j
    by (simp add: s' owner_def nth_append)
  have c: "cell s' a = (if a = length (heap s)
      then Some \<lparr>ref_count = 1, cb_px = p\<rparr> else cell s a)" for a
    by (simp add: s' cell_def nth_append)
  show ?thesis
  proof (rule inv_linkI)
    fix i w
    assume "owner s' i = Some w" and "pc w = None"
    with assms(1) show "px w = 0"
      by (auto simp: o split: if_splits dest: inv_linkN)
  next
    fix i w a
    assume w: "owner s' i = Some w" and a: "pc w = Some a"
    show "\<exists>cb. cell s' a = Some cb \<and> cb_px cb = px w"
    proof (cases "i = length (owners s)")
      case True
      with w a show ?thesis by (auto simp: o c)
    next
      case False
      with w have "owner s i = Some w" by (simp add: o)
      with assms(1) a obtain cb where cb: "cell s a = Some cb" "cb_px cb = px w"
        by (blast dest: inv_linkD)
      then have "a \<noteq> length (heap s)" by (auto dest: cell_length)
      with cb show ?thesis by (simp add: c)
    qed
  qed
qed

lemma wup_move_link:
  assumes "inv_link s" and "wup_move r s = Some (t, s')"
  shows "inv_link s'"
proof -
  from assms(2) obtain w where w: "owner s r = Some w"
    by (auto simp: wup_move_def bind_eq_Some_conv)
  have s': "s' = s\<lparr>owners := (owners s)[r := Some (w\<lparr>px := 0, pc := None\<rparr>)]
                        @ [Some \<lparr>px = px w, pd = pd w, pc = pc w\<rparr>]\<rparr>"
    using assms(2) unfolding wup_move_eq[OF w] by simp
  have o: "owner s' j = (if j = length (owners s) then Some \<lparr>px = px w, pd = pd w, pc = pc w\<rparr>
      else if j = r then Some (w\<lparr>px := 0, pc := None\<rparr>) else owner s j)" for j
    using owner_length[OF w] by (auto simp: s' owner_def nth_append nth_list_update)
  have c: "cell s' a = cell s a" for a
    by (simp add: s')
  show ?thesis
    using assms(1) w
    by (auto simp: inv_link_def linked_def o c split: if_splits)
qed

lemma wup_swap_link:
  assumes "inv_link s" and "wup_swap i r s = Some s'"
  shows "inv_link s'"
proof -
  from assms(2) obtain x y where xy: "owner s i = Some x" "owner s r = Some y"
    by (auto simp: wup_swap_def bind_eq_Some_conv)
  have s': "s' = s\<lparr>owners := (owners s)[i := Some y, r := Some x]\<rparr>"
    using assms(2) xy by (simp add: wup_swap_eq)
  have o: "owner s' j = (if j = r then Some x else if j = i then Some y else owner s j)" for j
    using owner_length[OF xy(1)] owner_length[OF xy(2)]
    by (auto simp: s' owner_def nth_list_update)
  have c: "cell s' a = cell s a" for a
    by (simp add: s')
  show ?thesis
    using assms(1) xy
    by (auto simp: inv_link_def linked_def o c split: if_splits)
qed

lemma wup_dtor_link:
  assumes "inv_refs s" and "inv_uniq s" and "\<And>j. j \<noteq> i \<Longrightarrow> linked s j"
    and "wup_dtor i s = Some s'"
  shows "inv_link s'"
proof -
  from assms(4) obtain w where w: "owner s i = Some w"
    by (auto simp: wup_dtor_def bind_eq_Some_conv)
  from wup_dtor_effect[OF w assms(1)] assms(4) have
    own: "owners s' = (owners s)[i := None]" and
    cel: "\<And>b. cell s' b =
        (if pc w = Some b
         then (if handles s b = 1 then None
               else Some \<lparr>ref_count = handles s b - 1, cb_px = 0\<rparr>)
         else cell s b)"
    by auto
  have o: "owner s' j = (if j = i then None else owner s j)" for j
    using owner_length[OF w] by (auto simp: own owner_def)
  show ?thesis
  proof (rule inv_linkI)
    fix j v
    assume v: "owner s' j = Some v" and n: "pc v = None"
    then have ji: "j \<noteq> i" and v': "owner s j = Some v" by (auto simp: o split: if_splits)
    from assms(3)[OF ji] v' n show "px v = 0" by (simp add: linked_def)
  next
    fix j v a
    assume v: "owner s' j = Some v" and a: "pc v = Some a"
    then have ji: "j \<noteq> i" and v': "owner s j = Some v" by (auto simp: o split: if_splits)
    have "pc w \<noteq> Some a"
    proof
      assume "pc w = Some a"
      with w v' a ji have "2 \<le> owner_refs (owners s) a"
        by (intro owner_refs_two[where i = i and j = j])
          (simp_all add: owner_length owner_nth)
      with assms(2) show False by (auto simp: inv_uniq_def dest: spec[where x = a])
    qed
    moreover from assms(3)[OF ji] v' a
    have "\<exists>cb. cell s a = Some cb \<and> cb_px cb = px v" by (simp add: linked_def)
    ultimately show "\<exists>cb. cell s' a = Some cb \<and> cb_px cb = px v"
      by (simp add: cel)
  qed
qed

lemma put_px_linked:
  assumes "inv_link s" and "owner s t = Some w" and "j \<noteq> t"
  shows "linked (put_owner t (Some (w\<lparr>px := q\<rparr>)) s) j"
  using assms
  by (auto simp: inv_link_def linked_def put_owner_def owner_owners_update)

lemma owner_and_observer_handles:
  assumes "owner s i = Some w" and "pc w = Some a"
    and "observer s k = Some v" and "w_pc v = Some a"
  shows "2 \<le> handles s a"
  using owner_refs_pos[of i "owners s" a] observer_refs_pos[of k "observers s" a] assms
  by (simp add: handles_def owner_length owner_nth observer_length observer_nth)

lemma uwp_default_link:
  assumes "inv_link s" and "uwp_default s = Some (t, s')"
  shows "inv_link s'"
  using assms(2) unfolding uwp_default_eq
  by (auto intro!: inv_link_same[OF assms(1)])

lemma new_handle_link:
  assumes "inv_link s"
    and "s' = (case h of None \<Rightarrow> s
      | Some a \<Rightarrow> s\<lparr>heap := (heap s)[a := map_option (\<lambda>cb. cb\<lparr>ref_count := ref_count cb + 1\<rparr>) (cell s a)]\<rparr>)
     \<lparr>observers := observers s @ [Some \<lparr>w_pc = h\<rparr>]\<rparr>"
  shows "inv_link s'"
  using assms(2)
  by (intro inv_link_same[OF assms(1)])
    (auto simp: cell_heap_update cell_length split: option.splits)

lemma uwp_copy_link:
  assumes "inv_refs s" and "inv_link s" and "uwp_copy m r s = Some (t, s')"
  shows "inv_link s'"
proof -
  from assms(3) obtain v where v: "observer s r = Some v"
    by (auto simp: uwp_copy_def bind_eq_Some_conv)
  from uwp_copy_eq(2)[OF v assms(3)] show ?thesis
    by (rule new_handle_link[OF assms(2)])
qed

lemma uwp_from_owner_link:
  assumes "inv_refs s" and "inv_link s" and "uwp_from_owner m r s = Some (t, s')"
  shows "inv_link s'"
proof -
  from assms(3) obtain w where w: "owner s r = Some w"
    by (auto simp: uwp_from_owner_def bind_eq_Some_conv)
  from uwp_from_owner_eq(2)[OF w assms(3)] show ?thesis
    by (rule new_handle_link[OF assms(2)])
qed

lemma uwp_move_link:
  assumes "inv_link s" and "uwp_move r s = Some (t, s')"
  shows "inv_link s'"
proof -
  from assms(2) obtain v where v: "observer s r = Some v"
    by (auto simp: uwp_move_def bind_eq_Some_conv)
  show ?thesis
    using assms(2) unfolding uwp_move_eq[OF v]
    by (auto intro!: inv_link_same[OF assms(1)])
qed

lemma uwp_swap_link:
  assumes "inv_link s" and "uwp_swap i r s = Some s'"
  shows "inv_link s'"
proof -
  from assms(2) obtain x y where xy: "observer s i = Some x" "observer s r = Some y"
    by (auto simp: uwp_swap_def bind_eq_Some_conv)
  show ?thesis
    using assms(2) unfolding uwp_swap_eq[OF xy]
    by (auto intro!: inv_link_same[OF assms(1)])
qed

lemma uwp_dtor_link:
  assumes "inv_refs s" and "inv_link s" and "uwp_dtor i s = Some s'"
  shows "inv_link s'"
proof -
  from assms(3) obtain v where v: "observer s i = Some v"
    by (auto simp: uwp_dtor_def bind_eq_Some_conv)
  from uwp_dtor_effect[OF v assms(1)] assms(3) have
    own: "owners s' = owners s" and
    cel: "\<And>b. cell s' b =
        (if w_pc v = Some b
         then (if handles s b = 1 then None
               else map_option (\<lambda>cb. cb\<lparr>ref_count := ref_count cb - 1\<rparr>) (cell s b))
         else cell s b)"
    by auto
  show ?thesis
  proof (rule inv_link_same[OF assms(2) own])
    fix j w a cb
    assume w: "owner s j = Some w" "pc w = Some a" and cb: "cell s a = Some cb"
    show "\<exists>cb'. cell s' a = Some cb' \<and> cb_px cb' = cb_px cb"
    proof (cases "w_pc v = Some a")
      case True
      from owner_and_observer_handles[OF w v True] cb show ?thesis
        by (simp add: cel True)
    next
      case False
      with cb show ?thesis by (simp add: cel)
    qed
  qed
qed

subsection \<open>Every call keeps the invariant\<close>

lemma inv_uniq_same:
  "inv_uniq s \<Longrightarrow> owners s' = owners s \<Longrightarrow> inv_uniq s'"
  by (simp add: inv_uniq_def)

lemma inv_init: "invariant init"
  by (simp add: invariant_def inv_refs_def inv_uniq_def inv_link_def linked_def init_def
      cell_def owner_def handles_def)

lemma wup_default_inv:
  "invariant s \<Longrightarrow> wup_default s = Some (t, s') \<Longrightarrow> invariant s'"
  unfolding invariant_def
  by (blast intro: wup_default_refs wup_default_uniq wup_default_link)

lemma wup_ctor_inv:
  "invariant s \<Longrightarrow> wup_ctor m p d s = Some (t, s') \<Longrightarrow> invariant s'"
  unfolding invariant_def
  by (blast intro: wup_ctor_refs wup_ctor_uniq wup_ctor_link)

lemma wup_move_inv:
  "invariant s \<Longrightarrow> wup_move r s = Some (t, s') \<Longrightarrow> invariant s'"
  unfolding invariant_def
  by (blast intro: wup_move_refs wup_move_uniq wup_move_link)

lemma wup_swap_inv:
  "invariant s \<Longrightarrow> wup_swap i r s = Some s' \<Longrightarrow> invariant s'"
  unfolding invariant_def
  by (blast intro: wup_swap_refs wup_swap_uniq wup_swap_link)

lemma wup_dtor_inv:
  assumes "invariant s" and "wup_dtor i s = Some s'"
  shows "invariant s'"
proof -
  from assms(1) have "linked s j" for j by (simp add: invariant_def inv_link_def)
  with assms show ?thesis
    unfolding invariant_def
    by (blast intro: wup_dtor_refs wup_dtor_uniq wup_dtor_link)
qed

lemma wup_move_assign_inv:
  assumes "invariant s" and "wup_move_assign i r s = Some s'"
  shows "invariant s'"
proof -
  from assms(2) obtain t s1 s2 where
    "wup_move r s = Some (t, s1)" "wup_swap t i s1 = Some s2" "wup_dtor t s2 = Some s'"
    by (auto simp: wup_move_assign_def bind_eq_Some_conv)
  with assms(1) show ?thesis
    by (blast intro: wup_move_inv wup_swap_inv wup_dtor_inv)
qed

lemma wup_assign_null_inv:
  assumes "invariant s" and "wup_assign_null i s = Some s'"
  shows "invariant s'"
proof -
  from assms(2) obtain t s1 s2 where
    "wup_default s = Some (t, s1)" "wup_swap t i s1 = Some s2" "wup_dtor t s2 = Some s'"
    by (auto simp: wup_assign_null_def bind_eq_Some_conv)
  with assms(1) show ?thesis
    by (blast intro: wup_default_inv wup_swap_inv wup_dtor_inv)
qed

lemma wup_reset_inv:
  assumes "invariant s" and "wup_reset m i p s = Some s'"
  shows "invariant s'"
proof -
  from assms(2) obtain t s1 s2 where
    "wup_ctor m p default_deleter s = Some (t, s1)" "wup_swap t i s1 = Some s2"
    "wup_dtor t s2 = Some s'"
    by (auto simp: wup_reset_def bind_eq_Some_conv)
  with assms(1) show ?thesis
    by (blast intro: wup_ctor_inv wup_swap_inv wup_dtor_inv)
qed

lemma wup_release_inv:
  assumes "invariant s" and "wup_release i s = Some (q, s')"
  shows "invariant s'"
proof -
  from assms(2) obtain t s1 s2 tmp where
    s1: "wup_default s = Some (t, s1)" and s2: "wup_swap t i s1 = Some s2" and
    tmp: "owner s2 t = Some tmp" and
    s': "wup_dtor t (put_owner t (Some (tmp\<lparr>px := 0\<rparr>)) s2) = Some s'"
    by (auto simp: wup_release_def bind_eq_Some_conv)
  from assms(1) s1 have "invariant s1" by (rule wup_default_inv)
  then have i2: "invariant s2" using s2 by (rule wup_swap_inv)
  let ?s3 = "put_owner t (Some (tmp\<lparr>px := 0\<rparr>)) s2"
  from i2 tmp have "inv_refs ?s3" "inv_uniq ?s3" "\<And>j. j \<noteq> t \<Longrightarrow> linked ?s3 j"
    by (simp_all add: invariant_def put_px_refs put_px_uniq put_px_linked)
  then show ?thesis
    using s' unfolding invariant_def
    by (blast intro: wup_dtor_refs wup_dtor_uniq wup_dtor_link)
qed

lemma uwp_default_inv:
  "invariant s \<Longrightarrow> uwp_default s = Some (t, s') \<Longrightarrow> invariant s'"
  unfolding invariant_def
  by (auto intro: uwp_default_refs uwp_default_link inv_uniq_same simp: uwp_default_eq)

lemma uwp_copy_inv:
  assumes "invariant s" and "uwp_copy m r s = Some (t, s')"
  shows "invariant s'"
proof -
  from assms(2) obtain v where v: "observer s r = Some v"
    by (auto simp: uwp_copy_def bind_eq_Some_conv)
  from uwp_copy_eq(2)[OF v assms(2)] have "owners s' = owners s"
    by (simp split: option.splits)
  with assms show ?thesis
    unfolding invariant_def
    by (blast intro: uwp_copy_refs uwp_copy_link inv_uniq_same)
qed

lemma uwp_from_owner_inv:
  assumes "invariant s" and "uwp_from_owner m r s = Some (t, s')"
  shows "invariant s'"
proof -
  from assms(2) obtain w where w: "owner s r = Some w"
    by (auto simp: uwp_from_owner_def bind_eq_Some_conv)
  from uwp_from_owner_eq(2)[OF w assms(2)] have "owners s' = owners s"
    by (simp split: option.splits)
  with assms show ?thesis
    unfolding invariant_def
    by (blast intro: uwp_from_owner_refs uwp_from_owner_link inv_uniq_same)
qed

lemma uwp_move_inv:
  assumes "invariant s" and "uwp_move r s = Some (t, s')"
  shows "invariant s'"
proof -
  from assms(2) obtain v where v: "observer s r = Some v"
    by (auto simp: uwp_move_def bind_eq_Some_conv)
  from assms have "owners s' = owners s"
    by (auto simp: uwp_move_eq[OF v])
  with assms show ?thesis
    unfolding invariant_def
    by (blast intro: uwp_move_refs uwp_move_link inv_uniq_same)
qed

lemma uwp_swap_inv:
  assumes "invariant s" and "uwp_swap i r s = Some s'"
  shows "invariant s'"
proof -
  from assms(2) obtain x y where xy: "observer s i = Some x" "observer s r = Some y"
    by (auto simp: uwp_swap_def bind_eq_Some_conv)
  from assms have "owners s' = owners s"
    by (auto simp: uwp_swap_eq[OF xy])
  with assms show ?thesis
    unfolding invariant_def
    by (blast intro: uwp_swap_refs uwp_swap_link inv_uniq_same)
qed

lemma uwp_dtor_inv:
  assumes "invariant s" and "uwp_dtor i s = Some s'"
  shows "invariant s'"
proof -
  from assms(2) obtain v where v: "observer s i = Some v"
    by (auto simp: uwp_dtor_def bind_eq_Some_conv)
  from assms have "owners s' = owners s"
    using uwp_dtor_effect[OF v] by (auto simp: invariant_def)
  with assms show ?thesis
    unfolding invariant_def
    by (blast intro: uwp_dtor_refs uwp_dtor_link inv_uniq_same)
qed

lemma uwp_assign_inv:
  assumes "invariant s" and "uwp_assign m i r s = Some s'"
  shows "invariant s'"
proof -
  from assms(2) obtain t s1 s2 where
    "uwp_copy m r s = Some (t, s1)" "uwp_swap t i s1 = Some s2" "uwp_dtor t s2 = Some s'"
    by (auto simp: uwp_assign_def bind_eq_Some_conv)
  with assms(1) show ?thesis
    by (blast intro: uwp_copy_inv uwp_swap_inv uwp_dtor_inv)
qed

lemma uwp_assign_owner_inv:
  assumes "invariant s" and "uwp_assign_owner m i r s = Some s'"
  shows "invariant s'"
proof -
  from assms(2) obtain t s1 s2 where
    "uwp_from_owner m r s = Some (t, s1)" "uwp_swap t i s1 = Some s2" "uwp_dtor t s2 = Some s'"
    by (auto simp: uwp_assign_owner_def bind_eq_Some_conv)
  with assms(1) show ?thesis
    by (blast intro: uwp_from_owner_inv uwp_swap_inv uwp_dtor_inv)
qed

lemma uwp_move_assign_inv:
  assumes "invariant s" and "uwp_move_assign i r s = Some s'"
  shows "invariant s'"
proof -
  from assms(2) obtain t s1 s2 where
    "uwp_move r s = Some (t, s1)" "uwp_swap t i s1 = Some s2" "uwp_dtor t s2 = Some s'"
    by (auto simp: uwp_move_assign_def bind_eq_Some_conv)
  with assms(1) show ?thesis
    by (blast intro: uwp_move_inv uwp_swap_inv uwp_dtor_inv)
qed

lemma uwp_reset_inv:
  assumes "invariant s" and "uwp_reset i s = Some s'"
  shows "invariant s'"
proof -
  from assms(2) obtain t s1 s2 where
    "uwp_default s = Some (t, s1)" "uwp_swap t i s1 = Some s2" "uwp_dtor t s2 = Some s'"
    by (auto simp: uwp_reset_def bind_eq_Some_conv)
  with assms(1) show ?thesis
    by (blast intro: uwp_default_inv uwp_swap_inv uwp_dtor_inv)
qed

lemma expired_state: "expired i s = Some (b, s') \<Longrightarrow> s' = s"
  by (auto simp: expired_def bind_eq_Some_conv split: option.splits)

lemma try_get_state: "try_get i s = Some (q, s') \<Longrightarrow> s' = s"
  by (auto simp: try_get_def bind_eq_Some_conv split: option.splits)

lemma exec_inv:
  assumes "invariant s" and "exec m c s = Some s'"
  shows "invariant s'"
proof (cases c)
  case Owner_Default
  with assms show ?thesis by (auto intro: wup_default_inv)
next
  case (Owner_Ctor p d)
  with assms show ?thesis by (auto intro: wup_ctor_inv)
next
  case (Owner_Move r)
  with assms show ?thesis by (auto intro: wup_move_inv)
next
  case (Owner_Move_Assign i r)
  with assms show ?thesis by (auto intro: wup_move_assign_inv)
next
  case (Owner_Assign_Null i)
  with assms show ?thesis by (auto intro: wup_assign_null_inv)
next
  case (Owner_Release i)
  with assms show ?thesis by (auto intro: wup_release_inv)
next
  case (Owner_Reset i p)
  with assms show ?thesis by (auto intro: wup_reset_inv)
next
  case (Owner_Swap i r)
  with assms show ?thesis by (auto intro: wup_swap_inv)
next
  case (Owner_Dtor i)
  with assms show ?thesis by (auto intro: wup_dtor_inv)
next
  case Obs_Default
  with assms show ?thesis by (auto intro: uwp_default_inv)
next
  case (Obs_Copy r)
  with assms show ?thesis by (auto intro: uwp_copy_inv)
next
  case (Obs_From_Owner r)
  with assms show ?thesis by (auto intro: uwp_from_owner_inv)
next
  case (Obs_Move r)
  with assms show ?thesis by (auto intro: uwp_move_inv)
next
  case (Obs_Assign i r)
  with assms show ?thesis by (auto intro: uwp_assign_inv)
next
  case (Obs_Assign_Owner i r)
  with assms show ?thesis by (auto intro: uwp_assign_owner_inv)
next
  case (Obs_Move_Assign i r)
  with assms show ?thesis by (auto intro: uwp_move_assign_inv)
next
  case (Obs_Reset i)
  with assms show ?thesis by (auto intro: uwp_reset_inv)
next
  case (Obs_Swap i r)
  with assms show ?thesis by (auto intro: uwp_swap_inv)
next
  case (Obs_Dtor i)
  with assms show ?thesis by (auto intro: uwp_dtor_inv)
next
  case (Obs_Expired i)
  with assms show ?thesis by (auto dest: expired_state)
next
  case (Obs_Try_Get i)
  with assms show ?thesis by (auto dest: try_get_state)
qed

lemma run_inv:
  "invariant s \<Longrightarrow> run m cs s = Some s' \<Longrightarrow> invariant s'"
proof (induction cs arbitrary: s)
  case Nil
  then show ?case by simp
next
  case (Cons c cs)
  then show ?case by (auto split: option.splits dest: exec_inv)
qed

lemma reachable_inv: "run m cs init = Some s \<Longrightarrow> invariant s"
  using inv_init by (rule run_inv)

lemmas model_defs =
  init_def cell_def owner_def observer_def emit_def put_cell_def put_owner_def
  put_observer_def new_owner_def new_observer_def new_control_block_def cb_reset_def
  cb_get_def intrusive_ptr_add_ref_def intrusive_ptr_release_def ip_copy_def ip_dtor_def
  wup_default_def wup_ctor_def wup_move_def wup_swap_def wup_dtor_def wup_move_assign_def
  wup_assign_null_def wup_release_def wup_reset_def wup_get_def wup_bool_def
  uwp_default_def uwp_copy_def uwp_from_owner_def uwp_move_def uwp_swap_def uwp_dtor_def
  uwp_assign_def uwp_assign_owner_def uwp_move_assign_def uwp_reset_def expired_def
  try_get_def default_deleter_def LONG_MAX_def

lemmas count_defs = handles_def owner_refs_def observer_refs_def

section \<open>The effect of the composite member functions\<close>

lemma wup_dtor_expires:
  assumes "inv_refs s" and "owner s i = Some w" and "wup_dtor i s = Some s'"
    and "observer s k = Some v" and "w_pc v = pc w"
  shows "observer s' k = Some v \<and> expired k s' = Some (True, s') \<and>
         try_get k s' = Some (0, s')"
proof -
  from wup_dtor_effect[OF assms(2,1)] assms(3) have
    obs: "observers s' = observers s" and
    cel: "\<And>b. cell s' b =
        (if pc w = Some b
         then (if handles s b = 1 then None
               else Some \<lparr>ref_count = handles s b - 1, cb_px = 0\<rparr>)
         else cell s b)"
    by auto
  from assms(4) have v: "observer s' k = Some v"
    unfolding observer_def obs .
  show ?thesis
  proof (cases "pc w")
    case None
    with v assms(5) show ?thesis by (simp add: expired_def try_get_def)
  next
    case (Some a)
    with assms have "2 \<le> handles s a"
      by (intro owner_and_observer_handles[where i = i and k = k]) simp_all
    with Some have "cell s' a = Some \<lparr>ref_count = handles s a - 1, cb_px = 0\<rparr>"
      by (simp add: cel)
    with v assms(5) Some show ?thesis
      by (simp add: expired_def try_get_def cb_get_def)
  qed
qed

text \<open>
  The idiom \<open>temporary.swap( *this )\<close> followed by the destructor of the temporary: the
  object \<open>i\<close> takes the members of the temporary \<open>t\<close>, and what \<open>i\<close> held is destroyed.
\<close>

lemma swap_dtor_effect:
  assumes "inv_refs s" and "owner s t = Some tmp" and "owner s i = Some w" and "t \<noteq> i"
  shows "\<exists>s'. (wup_swap t i s \<bind> wup_dtor t) = Some s' \<and>
     owners s' = (owners s)[i := Some tmp, t := None] \<and>
     observers s' = observers s \<and>
     length (heap s') = length (heap s) \<and>
     (\<forall>b. cell s' b =
        (if pc w = Some b
         then (if handles s b = 1 then None
               else Some \<lparr>ref_count = handles s b - 1, cb_px = 0\<rparr>)
         else cell s b)) \<and>
     trace s' = trace s
        @ (if px w \<noteq> 0 then [Destroy (pd w) (px w)] else [])
        @ (case pc w of None \<Rightarrow> []
           | Some a \<Rightarrow> Clear a # (if handles s a = 1 then [Free a] else [])) \<and>
     (\<forall>k v. observer s k = Some v \<longrightarrow> w_pc v = pc w \<longrightarrow>
        observer s' k = Some v \<and> expired k s' = Some (True, s') \<and>
        try_get k s' = Some (0, s'))"
proof -
  let ?s2 = "s\<lparr>owners := (owners s)[t := Some w, i := Some tmp]\<rparr>"
  have sw: "wup_swap t i s = Some ?s2"
    using assms(2,3) by (rule wup_swap_eq)
  with assms(1) have i2: "inv_refs ?s2" by (rule wup_swap_refs)
  have o2: "owner ?s2 t = Some w"
    using assms(2,3,4) by (auto simp: owner_def split: if_splits)
  have h2: "handles ?s2 b = handles s b" for b
    using wup_swap_handles(1)[OF sw] by (simp add: handles_def)
  from wup_dtor_effect[OF o2 i2] obtain s' where
    s': "wup_dtor t ?s2 = Some s'" and
    own: "owners s' = (owners ?s2)[t := None]" and
    obs: "observers s' = observers ?s2" and
    len: "length (heap s') = length (heap ?s2)" and
    cel: "\<forall>b. cell s' b =
        (if pc w = Some b
         then (if handles ?s2 b = 1 then None
               else Some \<lparr>ref_count = handles ?s2 b - 1, cb_px = 0\<rparr>)
         else cell ?s2 b)" and
    tra: "trace s' = trace ?s2
        @ (if px w \<noteq> 0 then [Destroy (pd w) (px w)] else [])
        @ (case pc w of None \<Rightarrow> []
           | Some a \<Rightarrow> Clear a # (if handles ?s2 a = 1 then [Free a] else []))"
    by blast
  have exp: "observer s' k = Some v \<and> expired k s' = Some (True, s') \<and>
        try_get k s' = Some (0, s')"
    if "observer s k = Some v" and "w_pc v = pc w" for k v
    using wup_dtor_expires[OF i2 o2 s', of k v] that by simp
  have "owners s' = (owners s)[i := Some tmp, t := None]"
    using assms(4) by (simp add: own list_update_swap[of t i])
  with sw s' obs len cel tra exp show ?thesis
    by (simp add: h2 cong: option.case_cong)
qed

lemma observer_reads_owner:
  assumes "invariant s" and "owner s i = Some w" and "observer s k = Some v" and "w_pc v = pc w"
  shows "try_get k s = Some (px w, s) \<and> expired k s = Some (px w = 0, s)"
proof (cases "pc w")
  case None
  with assms(1,2) have "px w = 0" by (auto simp: invariant_def dest: inv_linkN)
  with None assms(3,4) show ?thesis by (simp add: try_get_def expired_def)
next
  case (Some a)
  with assms(1,2) obtain cb where "cell s a = Some cb" "cb_px cb = px w"
    by (auto simp: invariant_def dest: inv_linkD)
  with Some assms(3,4) show ?thesis
    by (simp add: try_get_def expired_def cb_get_def)
qed

lemma snapshot_reads_owner:
  assumes "invariant s" and "owner s i = Some w"
    and "\<And>a. pc w = Some a \<Longrightarrow> handles s a < LONG_MAX m"
  shows "\<exists>s'. uwp_from_owner m i s = Some (length (observers s), s') \<and>
     invariant s' \<and> owners s' = owners s \<and>
     observer s' (length (observers s)) = Some \<lparr>w_pc = pc w\<rparr> \<and>
     try_get (length (observers s)) s' = Some (px w, s') \<and>
     expired (length (observers s)) s' = Some (px w = 0, s')"
proof -
  from assms(1) have r: "inv_refs s" by (simp add: invariant_def)
  let ?k = "length (observers s)"
  from uwp_from_owner_returns[OF assms(2) r assms(3)] obtain s' where
    s': "uwp_from_owner m i s = Some (?k, s')"
    by blast
  from uwp_from_owner_eq(2)[OF assms(2) s'] have
    obs: "observers s' = observers s @ [Some \<lparr>w_pc = pc w\<rparr>]" and
    own: "owners s' = owners s"
    by (simp_all split: option.splits)
  from assms(1) s' have i': "invariant s'" by (rule uwp_from_owner_inv)
  have o': "owner s' i = Some w" using assms(2) unfolding owner_def own .
  have v: "observer s' ?k = Some \<lparr>w_pc = pc w\<rparr>"
    by (simp add: observer_def obs)
  from observer_reads_owner[OF i' o' v] s' i' own v show ?thesis by simp
qed

lemma new_block_one_handle:
  assumes "inv_refs s" and "cell s a = Some \<lparr>ref_count = 1, cb_px = p\<rparr>"
  shows "handles s a < LONG_MAX m"
  using inv_refs_cell[OF assms] LONG_MAX_pos(2)[of m] by simp

section \<open>An unbound observer stays unbound\<close>

lemma ip_copy_stores:
  "ip_copy m h s = Some s' \<Longrightarrow> observers s' = observers s \<and> owners s' = owners s"
  by (auto simp: ip_copy_def intrusive_ptr_add_ref_def put_cell_def
      split: option.splits if_splits)

lemma ip_dtor_stores:
  "ip_dtor h s = Some s' \<Longrightarrow> observers s' = observers s \<and> owners s' = owners s"
  by (auto simp: ip_dtor_def intrusive_ptr_release_def put_cell_def emit_def
      split: option.splits if_splits)

lemma cb_reset_stores:
  "cb_reset a s = Some s' \<Longrightarrow> observers s' = observers s \<and> owners s' = owners s"
  by (auto simp: cb_reset_def put_cell_def emit_def split: option.splits)

lemma wup_default_observers:
  "wup_default s = Some (t, s') \<Longrightarrow> observers s' = observers s"
  by (auto simp: wup_default_eq)

lemma wup_ctor_observers:
  "wup_ctor m p d s = Some (t, s') \<Longrightarrow> observers s' = observers s"
  by (auto simp: wup_ctor_eq)

lemma wup_move_observers:
  "wup_move r s = Some (t, s') \<Longrightarrow> observers s' = observers s"
  by (auto simp: wup_move_def new_owner_def put_owner_def bind_eq_Some_conv)

lemma wup_swap_observers:
  "wup_swap i r s = Some s' \<Longrightarrow> observers s' = observers s"
  by (auto simp: wup_swap_def put_owner_def bind_eq_Some_conv)

lemma wup_dtor_observers:
  "wup_dtor i s = Some s' \<Longrightarrow> observers s' = observers s"
  by (auto simp: wup_dtor_def bind_eq_Some_conv emit_def put_owner_def
      split: option.splits if_splits dest!: cb_reset_stores ip_dtor_stores)

lemma put_px_observers:
  "observers (put_owner t x s) = observers s"
  by (simp add: put_owner_def)

lemma observer_same:
  "observers s' = observers s \<Longrightarrow> observer s' = observer s"
  by (simp add: observer_def fun_eq_iff)

lemma uwp_default_observer:
  assumes "uwp_default s = Some (t, s')"
  shows "t = length (observers s)"
    and "observer s' j = (if j = t then Some \<lparr>w_pc = None\<rparr> else observer s j)"
  using assms by (auto simp: uwp_default_eq observer_def nth_append)

lemma uwp_copy_observer:
  assumes "uwp_copy m r s = Some (t, s')"
  shows "t = length (observers s)" and "j \<noteq> t \<Longrightarrow> observer s' j = observer s j"
  using assms
  by (auto simp: uwp_copy_def new_observer_def bind_eq_Some_conv observer_def nth_append
      dest!: ip_copy_stores)

lemma uwp_from_owner_observer:
  assumes "uwp_from_owner m r s = Some (t, s')"
  shows "t = length (observers s)" and "j \<noteq> t \<Longrightarrow> observer s' j = observer s j"
  using assms
  by (auto simp: uwp_from_owner_def new_observer_def bind_eq_Some_conv observer_def nth_append
      dest!: ip_copy_stores)

lemma uwp_move_observer:
  assumes "uwp_move r s = Some (t, s')"
  shows "t = length (observers s)"
    and "j \<noteq> t \<Longrightarrow> observer s' j = (if j = r then Some \<lparr>w_pc = None\<rparr> else observer s j)"
proof -
  from assms obtain v where v: "observer s r = Some v"
    by (auto simp: uwp_move_def bind_eq_Some_conv)
  from assms show "t = length (observers s)"
    by (auto simp: uwp_move_eq[OF v])
  assume "j \<noteq> t"
  with assms observer_length[OF v]
  show "observer s' j = (if j = r then Some \<lparr>w_pc = None\<rparr> else observer s j)"
    by (auto simp: uwp_move_eq[OF v] observer_def nth_append nth_list_update)
qed

lemma uwp_swap_observer:
  assumes "uwp_swap i r s = Some s'"
  shows "observer s' j =
     (if j = r then observer s i else if j = i then observer s r else observer s j)"
proof -
  from assms obtain x y where xy: "observer s i = Some x" "observer s r = Some y"
    by (auto simp: uwp_swap_def bind_eq_Some_conv)
  with assms observer_length[OF xy(1)] observer_length[OF xy(2)] show ?thesis
    by (auto simp: uwp_swap_eq[OF xy] observer_def nth_list_update)
qed

lemma uwp_dtor_observer:
  assumes "uwp_dtor i s = Some s'"
  shows "observer s' j = (if j = i then None else observer s j)"
proof -
  from assms obtain v s1 where v: "observer s i = Some v" and
    s1: "ip_dtor (w_pc v) s = Some s1" and s': "s' = put_observer i None s1"
    by (auto simp: uwp_dtor_def bind_eq_Some_conv)
  from s1 have "observers s1 = observers s" by (auto dest: ip_dtor_stores)
  with s' observer_length[OF v] show ?thesis
    by (auto simp: put_observer_def observer_def nth_list_update)
qed

lemma live_below: "unbound s k \<Longrightarrow> k < length (observers s)"
  by (auto simp: unbound_def dest: observer_length)

lemma unbound_same:
  "observers s' = observers s \<Longrightarrow> unbound s k \<Longrightarrow> unbound s' k"
  by (auto simp: unbound_def observer_def split: if_splits)

lemma tmp_swap_dtor_unbound:
  assumes "unbound s k" and "t \<noteq> k" and "i \<noteq> k \<or> unbound s t"
    and "uwp_swap t i s = Some s2" and "uwp_dtor t s2 = Some s'"
  shows "unbound s' k"
proof -
  have "observer s' k = observer s2 k"
    using uwp_dtor_observer[OF assms(5), of k] assms(2) by simp
  also have "\<dots> = (if k = i then observer s t else observer s k)"
    using uwp_swap_observer[OF assms(4), of k] assms(2) by simp
  finally show ?thesis
    using assms(1,3) by (auto simp: unbound_def)
qed

lemma exec_unbound:
  assumes "unbound s k" and "exec m c s = Some s'" and "\<not> rebinds k c"
  shows "unbound s' k"
proof -
  note same = unbound_same[OF _ assms(1)]
  show ?thesis
  proof (cases c)
  case Owner_Default
  with assms show ?thesis by (auto intro!: same dest: wup_default_observers)
next
  case (Owner_Ctor p d)
  with assms show ?thesis by (auto intro!: same dest: wup_ctor_observers)
next
  case (Owner_Move r)
  with assms show ?thesis by (auto intro!: same dest: wup_move_observers)
next
  case (Owner_Move_Assign i r)
  with assms(2) obtain t s1 s2 where
    a: "wup_move r s = Some (t, s1)" and b: "wup_swap t i s1 = Some s2" and
    c: "wup_dtor t s2 = Some s'"
    by (auto simp: wup_move_assign_def bind_eq_Some_conv)
  have "observers s' = observers s"
    using wup_move_observers[OF a] wup_swap_observers[OF b] wup_dtor_observers[OF c] by simp
  then show ?thesis by (rule same)
next
  case (Owner_Assign_Null i)
  with assms(2) obtain t s1 s2 where
    a: "wup_default s = Some (t, s1)" and b: "wup_swap t i s1 = Some s2" and
    c: "wup_dtor t s2 = Some s'"
    by (auto simp: wup_assign_null_def bind_eq_Some_conv)
  have "observers s' = observers s"
    using wup_default_observers[OF a] wup_swap_observers[OF b] wup_dtor_observers[OF c] by simp
  then show ?thesis by (rule same)
next
  case (Owner_Release i)
  with assms(2) obtain t s1 s2 tmp where
    a: "wup_default s = Some (t, s1)" and b: "wup_swap t i s1 = Some s2" and
    c: "wup_dtor t (put_owner t (Some (tmp\<lparr>px := 0\<rparr>)) s2) = Some s'"
    by (auto simp: wup_release_def bind_eq_Some_conv)
  have "observers s' = observers s"
    using wup_default_observers[OF a] wup_swap_observers[OF b] wup_dtor_observers[OF c]
    by (simp add: put_px_observers)
  then show ?thesis by (rule same)
next
  case (Owner_Reset i p)
  with assms(2) obtain t s1 s2 where
    a: "wup_ctor m p default_deleter s = Some (t, s1)" and b: "wup_swap t i s1 = Some s2" and
    c: "wup_dtor t s2 = Some s'"
    by (auto simp: wup_reset_def bind_eq_Some_conv)
  have "observers s' = observers s"
    using wup_ctor_observers[OF a] wup_swap_observers[OF b] wup_dtor_observers[OF c] by simp
  then show ?thesis by (rule same)
next
  case (Owner_Swap i r)
  with assms show ?thesis by (auto intro!: same dest: wup_swap_observers)
next
  case (Owner_Dtor i)
  with assms show ?thesis by (auto intro!: same dest: wup_dtor_observers)
next
  case Obs_Default
  with assms(2) obtain t where t: "uwp_default s = Some (t, s')" by auto
  from live_below[OF assms(1)] assms(1) show ?thesis
    by (simp add: unbound_def uwp_default_observer[OF t])
next
  case (Obs_Copy r)
  with assms(2) obtain t where t: "uwp_copy m r s = Some (t, s')" by auto
  from live_below[OF assms(1)] assms(1) show ?thesis
    by (simp add: unbound_def uwp_copy_observer[OF t])
next
  case (Obs_From_Owner r)
  with assms(2) obtain t where t: "uwp_from_owner m r s = Some (t, s')" by auto
  from live_below[OF assms(1)] assms(1) show ?thesis
    by (simp add: unbound_def uwp_from_owner_observer[OF t])
next
  case (Obs_Move r)
  with assms(2) obtain t where t: "uwp_move r s = Some (t, s')" by auto
  from live_below[OF assms(1)] assms(1) show ?thesis
    by (simp add: unbound_def uwp_move_observer[OF t])
next
  case (Obs_Assign i r)
  with assms(2) obtain t s1 s2 where
    t: "uwp_copy m r s = Some (t, s1)" and sw: "uwp_swap t i s1 = Some s2" and
    dt: "uwp_dtor t s2 = Some s'"
    by (auto simp: uwp_assign_def bind_eq_Some_conv)
  from live_below[OF assms(1)] assms(1) have u1: "unbound s1 k" and tk: "t \<noteq> k"
    by (simp_all add: unbound_def uwp_copy_observer[OF t])
  from assms(3) Obs_Assign have ik: "i \<noteq> k" by simp
  show ?thesis by (rule tmp_swap_dtor_unbound[OF u1 tk disjI1[OF ik] sw dt])
next
  case (Obs_Assign_Owner i r)
  with assms(2) obtain t s1 s2 where
    t: "uwp_from_owner m r s = Some (t, s1)" and sw: "uwp_swap t i s1 = Some s2" and
    dt: "uwp_dtor t s2 = Some s'"
    by (auto simp: uwp_assign_owner_def bind_eq_Some_conv)
  from live_below[OF assms(1)] assms(1) have u1: "unbound s1 k" and tk: "t \<noteq> k"
    by (simp_all add: unbound_def uwp_from_owner_observer[OF t])
  from assms(3) Obs_Assign_Owner have ik: "i \<noteq> k" by simp
  show ?thesis by (rule tmp_swap_dtor_unbound[OF u1 tk disjI1[OF ik] sw dt])
next
  case (Obs_Move_Assign i r)
  with assms(2) obtain t s1 s2 where
    t: "uwp_move r s = Some (t, s1)" and sw: "uwp_swap t i s1 = Some s2" and
    dt: "uwp_dtor t s2 = Some s'"
    by (auto simp: uwp_move_assign_def bind_eq_Some_conv)
  from live_below[OF assms(1)] assms(1) have u1: "unbound s1 k" and tk: "t \<noteq> k"
    by (simp_all add: unbound_def uwp_move_observer[OF t])
  from assms(3) Obs_Move_Assign have ik: "i \<noteq> k" by simp
  show ?thesis by (rule tmp_swap_dtor_unbound[OF u1 tk disjI1[OF ik] sw dt])
next
  case (Obs_Reset i)
  with assms(2) obtain t s1 s2 where
    t: "uwp_default s = Some (t, s1)" and sw: "uwp_swap t i s1 = Some s2" and
    dt: "uwp_dtor t s2 = Some s'"
    by (auto simp: uwp_reset_def bind_eq_Some_conv)
  from live_below[OF assms(1)] assms(1)
  have u1: "unbound s1 k" and tk: "t \<noteq> k" and ut: "unbound s1 t"
    by (simp_all add: unbound_def uwp_default_observer[OF t])
  show ?thesis by (rule tmp_swap_dtor_unbound[OF u1 tk disjI2[OF ut] sw dt])
next
  case (Obs_Swap i r)
  with assms(2,3) have sw: "uwp_swap i r s = Some s'" and "k \<noteq> i" "k \<noteq> r" by auto
  with assms(1) show ?thesis
    by (simp add: unbound_def uwp_swap_observer[OF sw])
next
  case (Obs_Dtor i)
  with assms(2,3) have dt: "uwp_dtor i s = Some s'" and "k \<noteq> i" by auto
  with assms(1) show ?thesis
    by (simp add: unbound_def uwp_dtor_observer[OF dt])
next
  case (Obs_Expired i)
  with assms show ?thesis by (auto dest: expired_state)
next
  case (Obs_Try_Get i)
  with assms show ?thesis by (auto dest: try_get_state)
qed
qed

lemma run_unbound:
  "unbound s k \<Longrightarrow> run m cs s = Some s' \<Longrightarrow> \<forall>c\<in>set cs. \<not> rebinds k c \<Longrightarrow> unbound s' k"
proof (induction cs arbitrary: s)
  case Nil
  then show ?case by simp
next
  case (Cons c cs)
  from Cons.prems(2) obtain s1 where s1: "exec m c s = Some s1" "run m cs s1 = Some s'"
    by (auto split: option.splits)
  from Cons.prems(1) s1(1) Cons.prems(3) have "unbound s1 k"
    by (auto intro: exec_unbound)
  with Cons.IH s1(2) Cons.prems(3) show ?case by simp
qed

lemma unbound_expired:
  "unbound s k \<Longrightarrow> expired k s = Some (True, s) \<and> try_get k s = Some (0, s)"
  by (simp add: unbound_def expired_def try_get_def)

lemma wup_reset_returns:
  assumes "inv_refs s" and "owner s i = Some w"
  shows "\<exists>s'. wup_reset m i p s = Some s' \<and>
     owner s' i = Some \<lparr>px = p, pd = default_deleter, pc = Some (length (heap s))\<rparr>"
proof -
  let ?t = "length (owners s)"
  let ?n = "\<lparr>px = p, pd = default_deleter, pc = Some (length (heap s))\<rparr>"
  let ?s1 = "s\<lparr>heap := heap s @ [Some \<lparr>ref_count = 1, cb_px = p\<rparr>],
               owners := owners s @ [Some ?n],
               trace := trace s @ [Alloc (length (heap s))]\<rparr>"
  have il: "i < ?t" using assms(2) by (rule owner_length)
  have c1: "wup_ctor m p default_deleter s = Some (?t, ?s1)" by (rule wup_ctor_eq)
  with assms(1) have r1: "inv_refs ?s1" by (rule wup_ctor_refs)
  have o1: "owner ?s1 ?t = Some ?n" "owner ?s1 i = Some w"
    using assms(2) il by (auto simp: owner_def nth_append split: if_splits)
  have ne: "?t \<noteq> i" using il by simp
  from swap_dtor_effect[OF r1 o1 ne] obtain s' where
    s': "(wup_swap ?t i ?s1 \<bind> wup_dtor ?t) = Some s'" and
    own: "owners s' = (owners ?s1)[i := Some ?n, ?t := None]"
    by blast
  have "wup_reset m i p s = Some s'"
    using s' by (simp only: wup_reset_def c1 Option.bind.simps prod.case)
  moreover have "owner s' i = Some ?n"
    using il by (simp add: own owner_def)
  ultimately show ?thesis by blast
qed

text \<open>
  The class has no copy constructor and no copy assignment (both are deleted, lines 153
  and 179), and no call hands the control block of one owner to a second one: in every
  state that a client program reaches, two different live owners never hold the same
  control block.
\<close>

lemma owners_never_share_cell:
  assumes "run m cs init = Some s" and "owner s i = Some w" and "owner s j = Some u"
    and "i \<noteq> j" and "pc w = Some a"
  shows "pc u \<noteq> Some a"
proof
  assume "pc u = Some a"
  with assms(2-5) have "2 \<le> owner_refs (owners s) a"
    by (intro owner_refs_two[where i = i and j = j]) (simp_all add: owner_length owner_nth)
  moreover from assms(1) have "inv_uniq s" by (auto dest: reachable_inv simp: invariant_def)
  then have "owner_refs (owners s) a \<le> 1" by (simp add: inv_uniq_def)
  ultimately show False by simp
qed

section \<open>The count stays a value of the type \<open>long\<close>\<close>

lemma inv_long_heap:
  "heap s' = heap s \<Longrightarrow> inv_long m s \<Longrightarrow> inv_long m s'"
  by (auto simp: inv_long_def cell_def split: if_splits)

lemma inv_long_init: "inv_long m init"
  by (simp add: inv_long_def init_def cell_def)

lemma add_ref_long:
  "inv_long m s \<Longrightarrow> intrusive_ptr_add_ref m a s = Some s' \<Longrightarrow> inv_long m s'"
  by (auto simp: inv_long_def intrusive_ptr_add_ref_def put_cell_def cell_heap_update
      split: option.splits if_splits)

lemma release_long:
  "inv_long m s \<Longrightarrow> intrusive_ptr_release a s = Some s' \<Longrightarrow> inv_long m s'"
  by (fastforce simp: inv_long_def intrusive_ptr_release_def put_cell_def emit_def
      cell_heap_update split: option.splits if_splits)

lemma cb_reset_long:
  "inv_long m s \<Longrightarrow> cb_reset a s = Some s' \<Longrightarrow> inv_long m s'"
  by (auto simp: inv_long_def cb_reset_def put_cell_def emit_def cell_heap_update
      split: option.splits if_splits)

lemma ip_copy_long:
  "inv_long m s \<Longrightarrow> ip_copy m h s = Some s' \<Longrightarrow> inv_long m s'"
  by (auto simp: ip_copy_def split: option.splits dest: add_ref_long)

lemma ip_dtor_long:
  "inv_long m s \<Longrightarrow> ip_dtor h s = Some s' \<Longrightarrow> inv_long m s'"
  by (auto simp: ip_dtor_def split: option.splits dest: release_long)

lemma wup_default_long:
  "inv_long m s \<Longrightarrow> wup_default s = Some (t, s') \<Longrightarrow> inv_long m s'"
  by (auto simp: wup_default_eq intro: inv_long_heap[rotated])

lemma wup_ctor_long:
  assumes "inv_long m s" and "wup_ctor m p d s = Some (t, s')"
  shows "inv_long m s'"
proof -
  have c: "cell s' a = (if a = length (heap s)
      then Some \<lparr>ref_count = 1, cb_px = p\<rparr> else cell s a)" for a
    using assms(2) unfolding wup_ctor_eq by (auto simp: cell_def nth_append)
  show ?thesis
    using assms(1) LONG_MAX_pos(1)[of m] by (auto simp: inv_long_def c)
qed

lemma wup_move_long:
  "inv_long m s \<Longrightarrow> wup_move r s = Some (t, s') \<Longrightarrow> inv_long m s'"
  by (auto simp: wup_move_def new_owner_def put_owner_def bind_eq_Some_conv
      intro: inv_long_heap[rotated])

lemma wup_swap_long:
  "inv_long m s \<Longrightarrow> wup_swap i r s = Some s' \<Longrightarrow> inv_long m s'"
  by (auto simp: wup_swap_def put_owner_def bind_eq_Some_conv intro: inv_long_heap[rotated])

lemma emit_long: "inv_long m (emit e s) = inv_long m s"
  by (simp add: inv_long_def emit_def)

lemma put_owner_long: "inv_long m (put_owner i x s) = inv_long m s"
  by (simp add: inv_long_def put_owner_def)

lemma put_observer_long: "inv_long m (put_observer i x s) = inv_long m s"
  by (simp add: inv_long_def put_observer_def)

lemma wup_dtor_long:
  assumes "inv_long m s" and "wup_dtor i s = Some s'"
  shows "inv_long m s'"
proof -
  from assms(2) obtain w s2 s3 where "owner s i = Some w" and
    s2: "(case pc w of None \<Rightarrow> Some (if 0 < px w then emit (Destroy (pd w) (px w)) s else s)
          | Some a \<Rightarrow> cb_reset a (if 0 < px w then emit (Destroy (pd w) (px w)) s else s))
         = Some s2" and
    s3: "ip_dtor (pc w) s2 = Some s3" and s': "s' = put_owner i None s3"
    unfolding wup_dtor_def by (auto simp: bind_eq_Some_conv)
  have "inv_long m (if 0 < px w then emit (Destroy (pd w) (px w)) s else s)"
    using assms(1) by (simp add: emit_long)
  with s2 have "inv_long m s2"
    by (cases "pc w") (auto dest: cb_reset_long)
  then have "inv_long m s3" using s3 by (rule ip_dtor_long)
  with s' show ?thesis by (simp add: put_owner_long)
qed

lemma uwp_default_long:
  "inv_long m s \<Longrightarrow> uwp_default s = Some (t, s') \<Longrightarrow> inv_long m s'"
  by (auto simp: uwp_default_eq intro: inv_long_heap[rotated])

lemma new_observer_long: "inv_long m (snd (new_observer v s)) = inv_long m s"
  by (simp add: inv_long_def new_observer_def)

lemma uwp_copy_long:
  assumes "inv_long m s" and "uwp_copy m r s = Some (t, s')"
  shows "inv_long m s'"
proof -
  from assms(2) obtain v s1 where "observer s r = Some v"
    and s1: "ip_copy m (w_pc v) s = Some s1"
    and r: "(t, s') = new_observer \<lparr>w_pc = w_pc v\<rparr> s1"
    by (auto simp: uwp_copy_def bind_eq_Some_conv)
  from assms(1) s1 have "inv_long m s1" by (rule ip_copy_long)
  with r new_observer_long[of m "\<lparr>w_pc = w_pc v\<rparr>" s1] show ?thesis
    by (metis snd_conv)
qed

lemma uwp_from_owner_long:
  assumes "inv_long m s" and "uwp_from_owner m r s = Some (t, s')"
  shows "inv_long m s'"
proof -
  from assms(2) obtain w s1 where "owner s r = Some w"
    and s1: "ip_copy m (pc w) s = Some s1"
    and r: "(t, s') = new_observer \<lparr>w_pc = pc w\<rparr> s1"
    by (auto simp: uwp_from_owner_def bind_eq_Some_conv)
  from assms(1) s1 have "inv_long m s1" by (rule ip_copy_long)
  with r new_observer_long[of m "\<lparr>w_pc = pc w\<rparr>" s1] show ?thesis
    by (metis snd_conv)
qed

lemma uwp_move_long:
  "inv_long m s \<Longrightarrow> uwp_move r s = Some (t, s') \<Longrightarrow> inv_long m s'"
  by (auto simp: uwp_move_def new_observer_def put_observer_def bind_eq_Some_conv
      intro: inv_long_heap[rotated])

lemma uwp_swap_long:
  "inv_long m s \<Longrightarrow> uwp_swap i r s = Some s' \<Longrightarrow> inv_long m s'"
  by (auto simp: uwp_swap_def put_observer_def bind_eq_Some_conv
      intro: inv_long_heap[rotated])

lemma uwp_dtor_long:
  assumes "inv_long m s" and "uwp_dtor i s = Some s'"
  shows "inv_long m s'"
proof -
  from assms(2) obtain v s1 where "observer s i = Some v" and
    s1: "ip_dtor (w_pc v) s = Some s1" and s': "s' = put_observer i None s1"
    by (auto simp: uwp_dtor_def bind_eq_Some_conv)
  from assms(1) s1 have "inv_long m s1" by (rule ip_dtor_long)
  with s' show ?thesis by (simp add: put_observer_long)
qed

lemma exec_long:
  assumes "inv_long m s" and "exec m c s = Some s'"
  shows "inv_long m s'"
proof (cases c)
  case Owner_Default
  with assms show ?thesis by (auto dest: wup_default_long)
next
  case (Owner_Ctor p d)
  with assms show ?thesis by (auto dest: wup_ctor_long)
next
  case (Owner_Move r)
  with assms show ?thesis by (auto dest: wup_move_long)
next
  case (Owner_Move_Assign i r)
  with assms(2) obtain t s1 s2 where
    a: "wup_move r s = Some (t, s1)" and b: "wup_swap t i s1 = Some s2" and
    c: "wup_dtor t s2 = Some s'"
    by (auto simp: wup_move_assign_def bind_eq_Some_conv)
  from wup_dtor_long[OF wup_swap_long[OF wup_move_long[OF assms(1) a] b] c]
  show ?thesis .
next
  case (Owner_Assign_Null i)
  with assms(2) obtain t s1 s2 where
    a: "wup_default s = Some (t, s1)" and b: "wup_swap t i s1 = Some s2" and
    c: "wup_dtor t s2 = Some s'"
    by (auto simp: wup_assign_null_def bind_eq_Some_conv)
  from wup_dtor_long[OF wup_swap_long[OF wup_default_long[OF assms(1) a] b] c]
  show ?thesis .
next
  case (Owner_Release i)
  with assms(2) obtain t s1 s2 tmp where
    a: "wup_default s = Some (t, s1)" and b: "wup_swap t i s1 = Some s2" and
    c: "wup_dtor t (put_owner t (Some (tmp\<lparr>px := 0\<rparr>)) s2) = Some s'"
    by (auto simp: wup_release_def bind_eq_Some_conv)
  have "inv_long m (put_owner t (Some (tmp\<lparr>px := 0\<rparr>)) s2)"
    using wup_swap_long[OF wup_default_long[OF assms(1) a] b] by (simp add: put_owner_long)
  from wup_dtor_long[OF this c] show ?thesis .
next
  case (Owner_Reset i p)
  with assms(2) obtain t s1 s2 where
    a: "wup_ctor m p default_deleter s = Some (t, s1)" and b: "wup_swap t i s1 = Some s2" and
    c: "wup_dtor t s2 = Some s'"
    by (auto simp: wup_reset_def bind_eq_Some_conv)
  from wup_dtor_long[OF wup_swap_long[OF wup_ctor_long[OF assms(1) a] b] c]
  show ?thesis .
next
  case (Owner_Swap i r)
  with assms show ?thesis by (auto dest: wup_swap_long)
next
  case (Owner_Dtor i)
  with assms show ?thesis by (auto dest: wup_dtor_long)
next
  case Obs_Default
  with assms show ?thesis by (auto dest: uwp_default_long)
next
  case (Obs_Copy r)
  with assms show ?thesis by (auto dest: uwp_copy_long)
next
  case (Obs_From_Owner r)
  with assms show ?thesis by (auto dest: uwp_from_owner_long)
next
  case (Obs_Move r)
  with assms show ?thesis by (auto dest: uwp_move_long)
next
  case (Obs_Assign i r)
  with assms(2) obtain t s1 s2 where
    a: "uwp_copy m r s = Some (t, s1)" and b: "uwp_swap t i s1 = Some s2" and
    c: "uwp_dtor t s2 = Some s'"
    by (auto simp: uwp_assign_def bind_eq_Some_conv)
  from uwp_dtor_long[OF uwp_swap_long[OF uwp_copy_long[OF assms(1) a] b] c]
  show ?thesis .
next
  case (Obs_Assign_Owner i r)
  with assms(2) obtain t s1 s2 where
    a: "uwp_from_owner m r s = Some (t, s1)" and b: "uwp_swap t i s1 = Some s2" and
    c: "uwp_dtor t s2 = Some s'"
    by (auto simp: uwp_assign_owner_def bind_eq_Some_conv)
  from uwp_dtor_long[OF uwp_swap_long[OF uwp_from_owner_long[OF assms(1) a] b] c]
  show ?thesis .
next
  case (Obs_Move_Assign i r)
  with assms(2) obtain t s1 s2 where
    a: "uwp_move r s = Some (t, s1)" and b: "uwp_swap t i s1 = Some s2" and
    c: "uwp_dtor t s2 = Some s'"
    by (auto simp: uwp_move_assign_def bind_eq_Some_conv)
  from uwp_dtor_long[OF uwp_swap_long[OF uwp_move_long[OF assms(1) a] b] c]
  show ?thesis .
next
  case (Obs_Reset i)
  with assms(2) obtain t s1 s2 where
    a: "uwp_default s = Some (t, s1)" and b: "uwp_swap t i s1 = Some s2" and
    c: "uwp_dtor t s2 = Some s'"
    by (auto simp: uwp_reset_def bind_eq_Some_conv)
  from uwp_dtor_long[OF uwp_swap_long[OF uwp_default_long[OF assms(1) a] b] c]
  show ?thesis .
next
  case (Obs_Swap i r)
  with assms show ?thesis by (auto dest: uwp_swap_long)
next
  case (Obs_Dtor i)
  with assms show ?thesis by (auto dest: uwp_dtor_long)
next
  case (Obs_Expired i)
  with assms show ?thesis by (auto dest: expired_state)
next
  case (Obs_Try_Get i)
  with assms show ?thesis by (auto dest: try_get_state)
qed

lemma run_long:
  "inv_long m s \<Longrightarrow> run m cs s = Some s' \<Longrightarrow> inv_long m s'"
proof (induction cs arbitrary: s)
  case Nil
  then show ?case by simp
next
  case (Cons c cs)
  from Cons.prems(2) obtain s1 where s1: "exec m c s = Some s1" "run m cs s1 = Some s'"
    by (auto split: option.splits)
  from Cons.prems(1) s1(1) have "inv_long m s1" by (rule exec_long)
  with Cons.IH s1(2) show ?case by simp
qed

lemma reachable_long: "run m cs init = Some s \<Longrightarrow> inv_long m s"
  using inv_long_init by (rule run_long)

lemma add_ref_cell:
  "cell s a = Some cb \<Longrightarrow>
   map_option (\<lambda>s'. cell s' a) (intrusive_ptr_add_ref m a s) =
     (if ref_count cb < LONG_MAX m
      then Some (Some (cb\<lparr>ref_count := ref_count cb + 1\<rparr>)) else None)"
  by (simp add: intrusive_ptr_add_ref_def put_cell_def cell_heap_update cell_length)

lemma release_cell:
  "cell s a = Some cb \<Longrightarrow>
   map_option (\<lambda>s'. cell s' a) (intrusive_ptr_release a s) =
     Some (if ref_count cb = 1 then None else Some (cb\<lparr>ref_count := ref_count cb - 1\<rparr>))"
  by (simp add: intrusive_ptr_release_def put_cell_def emit_def cell_heap_update cell_length)

text \<open>
  Where \<open>long\<close> has 32 bits, a control block whose count is 2147483647 cannot take
  another handle: the increment is undefined.
\<close>

lemma add_ref_at_LONG_MAX:
  "intrusive_ptr_add_ref 0 0
     \<lparr>heap = [Some \<lparr>ref_count = 2147483647, cb_px = 7\<rparr>],
      owners = [], observers = [], trace = []\<rparr> = None"
  by (simp add: intrusive_ptr_add_ref_def cell_def LONG_MAX_def)

section \<open>The claims\<close>

text \<open>
  The theorems below hold for every \<open>m\<close>, that is, on every implementation of the
  type \<open>long\<close>; their instances are evaluated at \<open>m = 0\<close>, a \<open>long\<close> of 32 bits.
\<close>

text \<open>
  C1.  Let \<open>i\<close> be a live owner, with members \<open>w\<close>, in a state that a client program
  reaches.  \<open>release()\<close> returns, and its value is \<open>px\<close> of the owner.  Afterwards the
  owner holds the null pointer and no control block.  The call adds no call of a
  deleter to the effects: it adds the \<open>reset()\<close> of the owner's former control block,
  if there was one, and the deletion of that block when the owner held the last
  handle.  That block is either deleted or holds the null pointer.  Every observer that was bound where
  the owner was bound is still alive, reports \<open>expired() == true\<close> and
  \<open>try_get() == nullptr\<close>.
\<close>

theorem release_returns_and_expires:
  assumes "run m cs init = Some s" and "owner s i = Some w"
  shows "\<exists>s'. wup_release i s = Some (px w, s') \<and>
     owner s' i = Some \<lparr>px = 0, pd = default_deleter, pc = None\<rparr> \<and>
     trace s' = trace s
        @ (case pc w of None \<Rightarrow> []
           | Some a \<Rightarrow> Clear a # (if handles s a = 1 then [Free a] else [])) \<and>
     (\<forall>d q. Destroy d q \<notin> set (drop (length (trace s)) (trace s'))) \<and>
     (\<forall>a. pc w = Some a \<longrightarrow> cb_get a s' = None \<or> cb_get a s' = Some 0) \<and>
     (\<forall>k v. observer s k = Some v \<longrightarrow> w_pc v = pc w \<longrightarrow>
        observer s' k = Some v \<and> expired k s' = Some (True, s') \<and>
        try_get k s' = Some (0, s'))"
proof -
  from assms(1) have r: "inv_refs s" by (auto dest: reachable_inv simp: invariant_def)
  let ?t = "length (owners s)"
  let ?d = "\<lparr>px = 0, pd = default_deleter, pc = None\<rparr>"
  let ?s1 = "s\<lparr>owners := owners s @ [Some ?d]\<rparr>"
  let ?s2 = "?s1\<lparr>owners := (owners ?s1)[?t := Some w, i := Some ?d]\<rparr>"
  let ?s3 = "put_owner ?t (Some (w\<lparr>px := 0\<rparr>)) ?s2"
  have il: "i < ?t" using assms(2) by (rule owner_length)
  have d1: "wup_default s = Some (?t, ?s1)" by (rule wup_default_eq)
  with r have r1: "inv_refs ?s1" by (rule wup_default_refs)
  have o1: "owner ?s1 ?t = Some ?d" "owner ?s1 i = Some w"
    using assms(2) il by (auto simp: owner_def nth_append split: if_splits)
  have sw: "wup_swap ?t i ?s1 = Some ?s2"
    using o1 by (rule wup_swap_eq)
  with r1 have r2: "inv_refs ?s2" by (rule wup_swap_refs)
  have o2: "owner ?s2 ?t = Some w"
    using il by (simp add: owner_def)
  from r2 o2 have r3: "inv_refs ?s3" by (rule put_px_refs)
  have o3: "owner ?s3 ?t = Some (w\<lparr>px := 0\<rparr>)"
    by (simp add: put_owner_def owner_def)
  have h3: "handles ?s3 b = handles s b" for b
    using put_px_handles[OF o2, of 0 b] wup_swap_handles(1)[OF sw, of b]
    by (simp add: handles_def put_owner_def)
  have v3: "observer ?s3 k = observer s k" for k
    by (simp add: put_owner_def)
  have t3: "trace ?s3 = trace s"
    by (simp add: put_owner_def)
  from wup_dtor_effect[OF o3 r3] obtain s' where
    s': "wup_dtor ?t ?s3 = Some s'" and
    own: "owners s' = (owners ?s3)[?t := None]" and
    cel: "\<forall>b. cell s' b =
        (if pc w = Some b
         then (if handles ?s3 b = 1 then None
               else Some \<lparr>ref_count = handles ?s3 b - 1, cb_px = 0\<rparr>)
         else cell ?s3 b)" and
    tra: "trace s' = trace ?s3
        @ (case pc w of None \<Rightarrow> []
           | Some a \<Rightarrow> Clear a # (if handles ?s3 a = 1 then [Free a] else []))"
    by auto
  have rel: "wup_release i s = Some (px w, s')"
    by (simp only: wup_release_def d1 sw o2 s' Option.bind.simps prod.case)
  have oi: "owner s' i = Some ?d"
    using il by (simp add: own owner_def put_owner_def)
  have tr: "trace s' = trace s
        @ (case pc w of None \<Rightarrow> []
           | Some a \<Rightarrow> Clear a # (if handles s a = 1 then [Free a] else []))"
    using tra unfolding h3 t3 .
  have cl: "cb_get a s' = None \<or> cb_get a s' = Some 0" if "pc w = Some a" for a
    using cel that by (simp add: cb_get_def)
  have ex: "observer s' k = Some v \<and> expired k s' = Some (True, s') \<and>
        try_get k s' = Some (0, s')"
    if "observer s k = Some v" and "w_pc v = pc w" for k v
    using wup_dtor_expires[OF r3 o3 s', of k v] that unfolding v3 by simp
  have nd: "Destroy d q \<notin> set (drop (length (trace s)) (trace s'))" for d q
    unfolding tr by (cases "pc w") auto
  from rel oi tr nd cl ex show ?thesis by blast
qed

theorem release_returns_and_expires_witness:
  "run 0 [Owner_Ctor 7 3, Obs_From_Owner 0] init =
     Some \<lparr>heap = [Some \<lparr>ref_count = 2, cb_px = 7\<rparr>],
           owners = [Some \<lparr>px = 7, pd = 3, pc = Some 0\<rparr>],
           observers = [Some \<lparr>w_pc = Some 0\<rparr>],
           trace = [Alloc 0]\<rparr> \<and>
   wup_release 0
         \<lparr>heap = [Some \<lparr>ref_count = 2, cb_px = 7\<rparr>],
           owners = [Some \<lparr>px = 7, pd = 3, pc = Some 0\<rparr>],
           observers = [Some \<lparr>w_pc = Some 0\<rparr>],
           trace = [Alloc 0]\<rparr> =
     Some (7, \<lparr>heap = [Some \<lparr>ref_count = 1, cb_px = 0\<rparr>],
           owners = [Some \<lparr>px = 0, pd = default_deleter, pc = None\<rparr>, None],
           observers = [Some \<lparr>w_pc = Some 0\<rparr>],
           trace = [Alloc 0, Clear 0]\<rparr>) \<and>
   expired 0 \<lparr>heap = [Some \<lparr>ref_count = 1, cb_px = 0\<rparr>],
           owners = [Some \<lparr>px = 0, pd = default_deleter, pc = None\<rparr>, None],
           observers = [Some \<lparr>w_pc = Some 0\<rparr>],
           trace = [Alloc 0, Clear 0]\<rparr> =
     Some (True, \<lparr>heap = [Some \<lparr>ref_count = 1, cb_px = 0\<rparr>],
           owners = [Some \<lparr>px = 0, pd = default_deleter, pc = None\<rparr>, None],
           observers = [Some \<lparr>w_pc = Some 0\<rparr>],
           trace = [Alloc 0, Clear 0]\<rparr>)"
proof -
  let ?s = "\<lparr>heap = [Some \<lparr>ref_count = 2, cb_px = 7\<rparr>],
           owners = [Some \<lparr>px = 7, pd = 3, pc = Some 0\<rparr>],
           observers = [Some \<lparr>w_pc = Some 0\<rparr>],
           trace = [Alloc 0]\<rparr>"
  let ?s' = "\<lparr>heap = [Some \<lparr>ref_count = 1, cb_px = 0\<rparr>],
           owners = [Some \<lparr>px = 0, pd = default_deleter, pc = None\<rparr>, None],
           observers = [Some \<lparr>w_pc = Some 0\<rparr>],
           trace = [Alloc 0, Clear 0]\<rparr>"
  have r: "run 0 [Owner_Ctor 7 3, Obs_From_Owner 0] init = Some ?s"
    by (simp add: model_defs)
  have o: "owner ?s 0 = Some \<lparr>px = 7, pd = 3, pc = Some 0\<rparr>"
    by (simp add: owner_def)
  have v: "observer ?s 0 = Some \<lparr>w_pc = Some 0\<rparr>"
    by (simp add: observer_def)
  have e: "wup_release 0 ?s = Some (7, ?s')"
    by (simp add: model_defs)
  from release_returns_and_expires[OF r o] v e have "expired 0 ?s' = Some (True, ?s')"
    by auto
  with r e show ?thesis by simp
qed

text \<open>
  C2, as the claim states it, fails on the order of the effects.  \<open>reset\<close> is
  \<open>weakable_unique_ptr( p ).swap( *this )\<close>: the temporary, and with it the new control
  block, is constructed first; the previous object is destroyed and the previous
  control block is cleared by the destructor of the temporary, after the swap.  For an
  owner of object 7 with deleter 3 and one observer, \<open>reset(9)\<close> allocates block 1 before
  it destroys object 7 and before it clears block 0.
\<close>

theorem reset_allocates_before_it_destroys:
  "run 0 [Owner_Ctor 7 3, Obs_From_Owner 0] init =
     Some \<lparr>heap = [Some \<lparr>ref_count = 2, cb_px = 7\<rparr>],
           owners = [Some \<lparr>px = 7, pd = 3, pc = Some 0\<rparr>],
           observers = [Some \<lparr>w_pc = Some 0\<rparr>],
           trace = [Alloc 0]\<rparr> \<and>
   map_option trace (wup_reset 0 0 9
         \<lparr>heap = [Some \<lparr>ref_count = 2, cb_px = 7\<rparr>],
           owners = [Some \<lparr>px = 7, pd = 3, pc = Some 0\<rparr>],
           observers = [Some \<lparr>w_pc = Some 0\<rparr>],
           trace = [Alloc 0]\<rparr>) = Some [Alloc 0, Alloc 1, Destroy 3 7, Clear 0] \<and>
   \<not> precedes (Destroy 3 7) (Alloc 1) [Alloc 0, Alloc 1, Destroy 3 7, Clear 0] \<and>
   \<not> precedes (Clear 0) (Alloc 1) [Alloc 0, Alloc 1, Destroy 3 7, Clear 0] \<and>
   precedes (Alloc 1) (Destroy 3 7) [Alloc 0, Alloc 1, Destroy 3 7, Clear 0] \<and>
   precedes (Destroy 3 7) (Clear 0) [Alloc 0, Alloc 1, Destroy 3 7, Clear 0]"
  by (simp add: model_defs)

text \<open>
  C2, amended.  Let \<open>i\<close> be a live owner, with members \<open>w\<close>, in a state that a client
  program reaches, and \<open>p\<close> any pointer, null or not.  \<open>reset(p)\<close> returns.  It first
  allocates a control block at a new address, holding \<open>p\<close>; then it calls the previous
  deleter on the previous \<open>px\<close>, only when that is not null; then it clears the previous
  control block, only when there was one (and deletes it when the owner held the last
  handle).  Afterwards the owner holds \<open>p\<close>, a value-initialised deleter and the new
  control block, on which it has the only handle.  Every observer that was bound where
  the owner was bound is still alive and reports \<open>expired() == true\<close>; an observer
  constructed from the owner after the call reports \<open>try_get() == p\<close>.
\<close>

theorem reset_allocates_then_destroys:
  assumes "run m cs init = Some s" and "owner s i = Some w"
  shows "\<exists>s'. wup_reset m i p s = Some s' \<and>
     owner s' i = Some \<lparr>px = p, pd = default_deleter, pc = Some (length (heap s))\<rparr> \<and>
     cell s (length (heap s)) = None \<and>
     cell s' (length (heap s)) = Some \<lparr>ref_count = 1, cb_px = p\<rparr> \<and>
     trace s' = trace s
        @ [Alloc (length (heap s))]
        @ (if px w \<noteq> 0 then [Destroy (pd w) (px w)] else [])
        @ (case pc w of None \<Rightarrow> []
           | Some a \<Rightarrow> Clear a # (if handles s a = 1 then [Free a] else [])) \<and>
     (\<forall>k v. observer s k = Some v \<longrightarrow> w_pc v = pc w \<longrightarrow>
        observer s' k = Some v \<and> expired k s' = Some (True, s') \<and>
        try_get k s' = Some (0, s')) \<and>
     (\<exists>s''. uwp_from_owner m i s' = Some (length (observers s'), s'') \<and>
        observer s'' (length (observers s')) = Some \<lparr>w_pc = Some (length (heap s))\<rparr> \<and>
        try_get (length (observers s')) s'' = Some (p, s''))"
proof -
  from assms(1) have iv: "invariant s" by (rule reachable_inv)
  then have r: "inv_refs s" by (simp add: invariant_def)
  let ?t = "length (owners s)"
  let ?a = "length (heap s)"
  let ?n = "\<lparr>px = p, pd = default_deleter, pc = Some ?a\<rparr>"
  let ?s1 = "s\<lparr>heap := heap s @ [Some \<lparr>ref_count = 1, cb_px = p\<rparr>],
               owners := owners s @ [Some ?n],
               trace := trace s @ [Alloc ?a]\<rparr>"
  have il: "i < ?t" using assms(2) by (rule owner_length)
  have c1: "wup_ctor m p default_deleter s = Some (?t, ?s1)" by (rule wup_ctor_eq)
  with r have r1: "inv_refs ?s1" by (rule wup_ctor_refs)
  have o1: "owner ?s1 ?t = Some ?n" "owner ?s1 i = Some w"
    using assms(2) il by (auto simp: owner_def nth_append split: if_splits)
  have ne: "?t \<noteq> i" using il by simp
  have fresh: "cell s ?a = None" by (simp add: cell_def)
  have pw: "pc w \<noteq> Some ?a"
    using handles_pos_owner[OF assms(2), of ?a] fresh_cell_no_handles[OF r] by auto
  have h1: "handles ?s1 b = handles s b" if "pc w = Some b" for b
    using that pw by (auto simp: handles_def)
  have cs1: "cell ?s1 ?a = Some \<lparr>ref_count = 1, cb_px = p\<rparr>"
    by (simp add: cell_def)
  have v1: "observer ?s1 k = observer s k" for k
    by simp
  from swap_dtor_effect[OF r1 o1 ne] obtain s' where
    s': "(wup_swap ?t i ?s1 \<bind> wup_dtor ?t) = Some s'" and
    own: "owners s' = (owners ?s1)[i := Some ?n, ?t := None]" and
    cel: "\<forall>b. cell s' b =
        (if pc w = Some b
         then (if handles ?s1 b = 1 then None
               else Some \<lparr>ref_count = handles ?s1 b - 1, cb_px = 0\<rparr>)
         else cell ?s1 b)" and
    tra: "trace s' = trace ?s1
        @ (if px w \<noteq> 0 then [Destroy (pd w) (px w)] else [])
        @ (case pc w of None \<Rightarrow> []
           | Some a \<Rightarrow> Clear a # (if handles ?s1 a = 1 then [Free a] else []))" and
    exp: "\<forall>k v. observer ?s1 k = Some v \<longrightarrow> w_pc v = pc w \<longrightarrow>
        observer s' k = Some v \<and> expired k s' = Some (True, s') \<and>
        try_get k s' = Some (0, s')"
    by blast
  have rs: "wup_reset m i p s = Some s'"
    using s' by (simp only: wup_reset_def c1 Option.bind.simps prod.case)
  have oi: "owner s' i = Some ?n"
    using il by (simp add: own owner_def)
  have cn: "cell s' ?a = Some \<lparr>ref_count = 1, cb_px = p\<rparr>"
    using cel pw cs1 by simp
  have t1: "trace ?s1 = trace s @ [Alloc ?a]" by simp
  have ce: "(case pc w of None \<Rightarrow> []
           | Some a \<Rightarrow> Clear a # (if handles ?s1 a = 1 then [Free a] else [])) =
        (case pc w of None \<Rightarrow> []
           | Some a \<Rightarrow> Clear a # (if handles s a = 1 then [Free a] else []))"
    by (cases "pc w") (simp_all only: option.case h1)
  have tr: "trace s' = trace s
        @ [Alloc ?a]
        @ (if px w \<noteq> 0 then [Destroy (pd w) (px w)] else [])
        @ (case pc w of None \<Rightarrow> []
           | Some a \<Rightarrow> Clear a # (if handles s a = 1 then [Free a] else []))"
    using tra unfolding ce t1 by simp
  have ex: "\<forall>k v. observer s k = Some v \<longrightarrow> w_pc v = pc w \<longrightarrow>
        observer s' k = Some v \<and> expired k s' = Some (True, s') \<and>
        try_get k s' = Some (0, s')"
    using exp unfolding v1 .
  from iv rs have iv': "invariant s'" by (rule wup_reset_inv)
  then have "inv_refs s'" by (simp add: invariant_def)
  then have lt: "handles s' a < LONG_MAX m" if "pc ?n = Some a" for a
    using that new_block_one_handle[of s' ?a p m] cn by simp
  from snapshot_reads_owner[OF iv' oi lt]
  have sn: "\<exists>s''. uwp_from_owner m i s' = Some (length (observers s'), s'') \<and>
        observer s'' (length (observers s')) = Some \<lparr>w_pc = Some ?a\<rparr> \<and>
        try_get (length (observers s')) s'' = Some (p, s'')"
    by auto
  from rs oi fresh cn tr ex sn show ?thesis by blast
qed

theorem reset_allocates_then_destroys_witness:
  "run 0 [Owner_Ctor 7 3, Obs_From_Owner 0] init =
     Some \<lparr>heap = [Some \<lparr>ref_count = 2, cb_px = 7\<rparr>],
           owners = [Some \<lparr>px = 7, pd = 3, pc = Some 0\<rparr>],
           observers = [Some \<lparr>w_pc = Some 0\<rparr>],
           trace = [Alloc 0]\<rparr> \<and>
   wup_reset 0 0 9
         \<lparr>heap = [Some \<lparr>ref_count = 2, cb_px = 7\<rparr>],
           owners = [Some \<lparr>px = 7, pd = 3, pc = Some 0\<rparr>],
           observers = [Some \<lparr>w_pc = Some 0\<rparr>],
           trace = [Alloc 0]\<rparr> =
     Some \<lparr>heap = [Some \<lparr>ref_count = 1, cb_px = 0\<rparr>, Some \<lparr>ref_count = 1, cb_px = 9\<rparr>],
           owners = [Some \<lparr>px = 9, pd = default_deleter, pc = Some 1\<rparr>, None],
           observers = [Some \<lparr>w_pc = Some 0\<rparr>],
           trace = [Alloc 0, Alloc 1, Destroy 3 7, Clear 0]\<rparr> \<and>
   map_option fst (expired 0
         \<lparr>heap = [Some \<lparr>ref_count = 1, cb_px = 0\<rparr>, Some \<lparr>ref_count = 1, cb_px = 9\<rparr>],
           owners = [Some \<lparr>px = 9, pd = default_deleter, pc = Some 1\<rparr>, None],
           observers = [Some \<lparr>w_pc = Some 0\<rparr>],
           trace = [Alloc 0, Alloc 1, Destroy 3 7, Clear 0]\<rparr>) = Some True"
proof -
  let ?s = "\<lparr>heap = [Some \<lparr>ref_count = 2, cb_px = 7\<rparr>],
           owners = [Some \<lparr>px = 7, pd = 3, pc = Some 0\<rparr>],
           observers = [Some \<lparr>w_pc = Some 0\<rparr>],
           trace = [Alloc 0]\<rparr>"
  let ?s' = "\<lparr>heap = [Some \<lparr>ref_count = 1, cb_px = 0\<rparr>, Some \<lparr>ref_count = 1, cb_px = 9\<rparr>],
           owners = [Some \<lparr>px = 9, pd = default_deleter, pc = Some 1\<rparr>, None],
           observers = [Some \<lparr>w_pc = Some 0\<rparr>],
           trace = [Alloc 0, Alloc 1, Destroy 3 7, Clear 0]\<rparr>"
  have r: "run 0 [Owner_Ctor 7 3, Obs_From_Owner 0] init = Some ?s"
    by (simp add: model_defs)
  have o: "owner ?s 0 = Some \<lparr>px = 7, pd = 3, pc = Some 0\<rparr>"
    by (simp add: owner_def)
  have v: "observer ?s 0 = Some \<lparr>w_pc = Some 0\<rparr>"
    by (simp add: observer_def)
  have e: "wup_reset 0 0 9 ?s = Some ?s'"
    by (simp add: model_defs)
  from reset_allocates_then_destroys[OF r o, of 9] e v
  have "map_option fst (expired 0 ?s') = Some True"
    by auto
  with r e show ?thesis by simp
qed

text \<open>
  C3.  Let \<open>i\<close> be a live owner, with members \<open>w\<close>, in a state that a client program
  reaches.  Its destructor returns.  What it adds to the effects is, in this order: the
  call \<open>pd(px)\<close> of the deleter, only when \<open>px\<close> is not null; the \<open>reset()\<close> of the
  control block, only when the owner has one; the deletion of the control block, when
  the owner held the last handle.  Afterwards every observer that is bound where the
  owner was bound, wherever the owner got its control block from, is still alive,
  reports \<open>expired() == true\<close> and \<open>try_get() == nullptr\<close>.
\<close>

theorem destructor_destroys_then_clears:
  assumes "run m cs init = Some s" and "owner s i = Some w"
  shows "\<exists>s'. wup_dtor i s = Some s' \<and> owner s' i = None \<and>
     trace s' = trace s
        @ (if px w \<noteq> 0 then [Destroy (pd w) (px w)] else [])
        @ (case pc w of None \<Rightarrow> []
           | Some a \<Rightarrow> Clear a # (if handles s a = 1 then [Free a] else [])) \<and>
     (\<forall>k v. observer s k = Some v \<longrightarrow> w_pc v = pc w \<longrightarrow>
        observer s' k = Some v \<and> expired k s' = Some (True, s') \<and>
        try_get k s' = Some (0, s'))"
proof -
  from assms(1) have r: "inv_refs s" by (auto dest: reachable_inv simp: invariant_def)
  from wup_dtor_effect[OF assms(2) r] obtain s' where
    s': "wup_dtor i s = Some s'" and
    own: "owners s' = (owners s)[i := None]" and
    tra: "trace s' = trace s
        @ (if px w \<noteq> 0 then [Destroy (pd w) (px w)] else [])
        @ (case pc w of None \<Rightarrow> []
           | Some a \<Rightarrow> Clear a # (if handles s a = 1 then [Free a] else []))"
    by blast
  have "owner s' i = None"
    by (simp add: owner_def own)
  with s' tra wup_dtor_expires[OF r assms(2) s'] show ?thesis
    by blast
qed

theorem destructor_destroys_then_clears_witness:
  "run 0 [Owner_Ctor 7 3, Obs_From_Owner 0, Owner_Move 0] init =
     Some \<lparr>heap = [Some \<lparr>ref_count = 2, cb_px = 7\<rparr>],
           owners = [Some \<lparr>px = 0, pd = 3, pc = None\<rparr>, Some \<lparr>px = 7, pd = 3, pc = Some 0\<rparr>],
           observers = [Some \<lparr>w_pc = Some 0\<rparr>],
           trace = [Alloc 0]\<rparr> \<and>
   map_option trace (wup_dtor 1
         \<lparr>heap = [Some \<lparr>ref_count = 2, cb_px = 7\<rparr>],
           owners = [Some \<lparr>px = 0, pd = 3, pc = None\<rparr>, Some \<lparr>px = 7, pd = 3, pc = Some 0\<rparr>],
           observers = [Some \<lparr>w_pc = Some 0\<rparr>],
           trace = [Alloc 0]\<rparr>) = Some [Alloc 0, Destroy 3 7, Clear 0] \<and>
   map_option (map_option fst \<circ> expired 0) (wup_dtor 1
         \<lparr>heap = [Some \<lparr>ref_count = 2, cb_px = 7\<rparr>],
           owners = [Some \<lparr>px = 0, pd = 3, pc = None\<rparr>, Some \<lparr>px = 7, pd = 3, pc = Some 0\<rparr>],
           observers = [Some \<lparr>w_pc = Some 0\<rparr>],
           trace = [Alloc 0]\<rparr>) = Some (Some True)"
proof -
  let ?s = "\<lparr>heap = [Some \<lparr>ref_count = 2, cb_px = 7\<rparr>],
           owners = [Some \<lparr>px = 0, pd = 3, pc = None\<rparr>, Some \<lparr>px = 7, pd = 3, pc = Some 0\<rparr>],
           observers = [Some \<lparr>w_pc = Some 0\<rparr>],
           trace = [Alloc 0]\<rparr>"
  have r: "run 0 [Owner_Ctor 7 3, Obs_From_Owner 0, Owner_Move 0] init = Some ?s"
    by (simp add: model_defs)
  have o: "owner ?s 1 = Some \<lparr>px = 7, pd = 3, pc = Some 0\<rparr>"
    by (simp add: owner_def)
  have v: "observer ?s 0 = Some \<lparr>w_pc = Some 0\<rparr>"
    by (simp add: observer_def)
  have h: "handles ?s 0 = 2"
    by (simp add: count_defs)
  from destructor_destroys_then_clears[OF r o] v h r show ?thesis
    by auto
qed

text \<open>
  C4, as the claim states it, fails when an owner is move-assigned to itself,
  \<open>o = std::move( o )\<close>: the temporary takes the members of \<open>o\<close>, the swap gives them
  back, and the destructor of the temporary finds nothing.  The source of the move then
  still holds its object and its control block.
\<close>

theorem self_move_assign_keeps_source:
  "run 0 [Owner_Ctor 7 3, Obs_From_Owner 0] init =
     Some \<lparr>heap = [Some \<lparr>ref_count = 2, cb_px = 7\<rparr>],
           owners = [Some \<lparr>px = 7, pd = 3, pc = Some 0\<rparr>],
           observers = [Some \<lparr>w_pc = Some 0\<rparr>],
           trace = [Alloc 0]\<rparr> \<and>
   wup_move_assign 0 0
         \<lparr>heap = [Some \<lparr>ref_count = 2, cb_px = 7\<rparr>],
           owners = [Some \<lparr>px = 7, pd = 3, pc = Some 0\<rparr>],
           observers = [Some \<lparr>w_pc = Some 0\<rparr>],
           trace = [Alloc 0]\<rparr> =
     Some \<lparr>heap = [Some \<lparr>ref_count = 2, cb_px = 7\<rparr>],
           owners = [Some \<lparr>px = 7, pd = 3, pc = Some 0\<rparr>, None],
           observers = [Some \<lparr>w_pc = Some 0\<rparr>],
           trace = [Alloc 0]\<rparr> \<and>
   owner \<lparr>heap = [Some \<lparr>ref_count = 2, cb_px = 7\<rparr>],
           owners = [Some \<lparr>px = 7, pd = 3, pc = Some 0\<rparr>, None],
           observers = [Some \<lparr>w_pc = Some 0\<rparr>],
           trace = [Alloc 0]\<rparr> 0 = Some \<lparr>px = 7, pd = 3, pc = Some 0\<rparr>"
  by (simp add: model_defs)

text \<open>
  C4, amended.  Let \<open>r\<close> be a live owner, with members \<open>w\<close>, in a state that a client
  program reaches.

  Move construction from \<open>r\<close> returns a new owner with the \<open>px\<close>, \<open>pd\<close> and \<open>pc\<close> of
  \<open>r\<close>, and leaves \<open>r\<close> with the null pointer and no control block; the heap and the
  effects are what they were.

  Move assignment from \<open>r\<close> to a live owner \<open>i\<close> other than \<open>r\<close> returns, gives \<open>i\<close>
  the \<open>px\<close>, \<open>pd\<close> and \<open>pc\<close> of \<open>r\<close>, and leaves \<open>r\<close> with the null pointer and no
  control block; the heap has the size it had.

  After either, every observer that was bound where \<open>r\<close> was bound is the observer it
  was, and its \<open>try_get()\<close> returns the \<open>px\<close> that \<open>r\<close> had.
\<close>

theorem move_relocates_cell:
  assumes "run m cs init = Some s" and "owner s r = Some w"
  shows "(\<exists>s'. wup_move r s = Some (length (owners s), s') \<and>
            owner s' (length (owners s)) = Some \<lparr>px = px w, pd = pd w, pc = pc w\<rparr> \<and>
            owner s' r = Some (w\<lparr>px := 0, pc := None\<rparr>) \<and>
            heap s' = heap s \<and> trace s' = trace s \<and>
            (\<forall>k v. observer s k = Some v \<longrightarrow> w_pc v = pc w \<longrightarrow>
               observer s' k = Some v \<and> try_get k s' = Some (px w, s'))) \<and>
         (\<forall>i u. owner s i = Some u \<longrightarrow> i \<noteq> r \<longrightarrow>
            (\<exists>s'. wup_move_assign i r s = Some s' \<and>
               owner s' i = Some \<lparr>px = px w, pd = pd w, pc = pc w\<rparr> \<and>
               owner s' r = Some (w\<lparr>px := 0, pc := None\<rparr>) \<and>
               length (heap s') = length (heap s) \<and>
               (\<forall>k v. observer s k = Some v \<longrightarrow> w_pc v = pc w \<longrightarrow>
                  observer s' k = Some v \<and> try_get k s' = Some (px w, s'))))"
proof -
  from assms(1) have iv: "invariant s" by (rule reachable_inv)
  let ?t = "length (owners s)"
  let ?n = "\<lparr>px = px w, pd = pd w, pc = pc w\<rparr>"
  let ?s1 = "s\<lparr>owners := (owners s)[r := Some (w\<lparr>px := 0, pc := None\<rparr>)] @ [Some ?n]\<rparr>"
  have rl: "r < ?t" using assms(2) by (rule owner_length)
  have m1: "wup_move r s = Some (?t, ?s1)" using assms(2) by (rule wup_move_eq)
  with iv have iv1: "invariant ?s1" by (rule wup_move_inv)
  then have r1: "inv_refs ?s1" by (simp add: invariant_def)
  have ot: "owner ?s1 ?t = Some ?n"
    by (simp add: owner_def nth_append)
  have orr: "owner ?s1 r = Some (w\<lparr>px := 0, pc := None\<rparr>)"
    using rl by (simp add: owner_def nth_append)
  have v1: "observer ?s1 k = observer s k" for k
    by simp
  have ob1: "observer ?s1 k = Some v \<and> try_get k ?s1 = Some (px w, ?s1)"
    if "observer s k = Some v" and "w_pc v = pc w" for k v
    using observer_reads_owner[OF iv1 ot, of k v] that unfolding v1 by simp
  have ctor: "\<exists>s'. wup_move r s = Some (?t, s') \<and>
            owner s' ?t = Some ?n \<and>
            owner s' r = Some (w\<lparr>px := 0, pc := None\<rparr>) \<and>
            heap s' = heap s \<and> trace s' = trace s \<and>
            (\<forall>k v. observer s k = Some v \<longrightarrow> w_pc v = pc w \<longrightarrow>
               observer s' k = Some v \<and> try_get k s' = Some (px w, s'))"
    using m1 ot orr ob1 by (intro exI[where x = ?s1]) simp
  have asg: "\<exists>s'. wup_move_assign i r s = Some s' \<and>
               owner s' i = Some ?n \<and>
               owner s' r = Some (w\<lparr>px := 0, pc := None\<rparr>) \<and>
               length (heap s') = length (heap s) \<and>
               (\<forall>k v. observer s k = Some v \<longrightarrow> w_pc v = pc w \<longrightarrow>
                  observer s' k = Some v \<and> try_get k s' = Some (px w, s'))"
    if u: "owner s i = Some u" and ir: "i \<noteq> r" for i u
  proof -
    have il: "i < ?t" using u by (rule owner_length)
    have oi: "owner ?s1 i = Some u"
      using u il ir by (auto simp: owner_def nth_append split: if_splits)
    have ne: "?t \<noteq> i" using il by simp
    from swap_dtor_effect[OF r1 ot oi ne] obtain s' where
      s': "(wup_swap ?t i ?s1 \<bind> wup_dtor ?t) = Some s'" and
      own: "owners s' = (owners ?s1)[i := Some ?n, ?t := None]" and
      obs: "observers s' = observers ?s1" and
      len: "length (heap s') = length (heap ?s1)"
      by blast
    have ma: "wup_move_assign i r s = Some s'"
      using s' by (simp only: wup_move_assign_def m1 Option.bind.simps prod.case)
    with iv have iv': "invariant s'" by (rule wup_move_assign_inv)
    have oi': "owner s' i = Some ?n"
      using il by (simp add: own owner_def)
    have or': "owner s' r = Some (w\<lparr>px := 0, pc := None\<rparr>)"
      using rl ir by (simp add: own owner_def nth_append)
    have v': "observer s' k = observer s k" for k
      by (simp add: observer_def obs)
    have ob': "observer s' k = Some v \<and> try_get k s' = Some (px w, s')"
      if "observer s k = Some v" and "w_pc v = pc w" for k v
      using observer_reads_owner[OF iv' oi', of k v] that unfolding v' by simp
    from ma oi' or' len ob' show ?thesis
      by (intro exI[where x = s']) simp
  qed
  from ctor asg show ?thesis by blast
qed

theorem move_relocates_cell_witness:
  "run 0 [Owner_Ctor 7 3, Obs_From_Owner 0, Owner_Ctor 8 4] init =
     Some \<lparr>heap = [Some \<lparr>ref_count = 2, cb_px = 7\<rparr>, Some \<lparr>ref_count = 1, cb_px = 8\<rparr>],
           owners = [Some \<lparr>px = 7, pd = 3, pc = Some 0\<rparr>, Some \<lparr>px = 8, pd = 4, pc = Some 1\<rparr>],
           observers = [Some \<lparr>w_pc = Some 0\<rparr>],
           trace = [Alloc 0, Alloc 1]\<rparr> \<and>
   wup_move_assign 1 0
         \<lparr>heap = [Some \<lparr>ref_count = 2, cb_px = 7\<rparr>, Some \<lparr>ref_count = 1, cb_px = 8\<rparr>],
           owners = [Some \<lparr>px = 7, pd = 3, pc = Some 0\<rparr>, Some \<lparr>px = 8, pd = 4, pc = Some 1\<rparr>],
           observers = [Some \<lparr>w_pc = Some 0\<rparr>],
           trace = [Alloc 0, Alloc 1]\<rparr> =
     Some \<lparr>heap = [Some \<lparr>ref_count = 2, cb_px = 7\<rparr>, None],
           owners = [Some \<lparr>px = 0, pd = 3, pc = None\<rparr>, Some \<lparr>px = 7, pd = 3, pc = Some 0\<rparr>, None],
           observers = [Some \<lparr>w_pc = Some 0\<rparr>],
           trace = [Alloc 0, Alloc 1, Destroy 4 8, Clear 1, Free 1]\<rparr> \<and>
   map_option fst (try_get 0
         \<lparr>heap = [Some \<lparr>ref_count = 2, cb_px = 7\<rparr>, None],
           owners = [Some \<lparr>px = 0, pd = 3, pc = None\<rparr>, Some \<lparr>px = 7, pd = 3, pc = Some 0\<rparr>, None],
           observers = [Some \<lparr>w_pc = Some 0\<rparr>],
           trace = [Alloc 0, Alloc 1, Destroy 4 8, Clear 1, Free 1]\<rparr>) = Some 7"
proof -
  let ?s = "\<lparr>heap = [Some \<lparr>ref_count = 2, cb_px = 7\<rparr>, Some \<lparr>ref_count = 1, cb_px = 8\<rparr>],
           owners = [Some \<lparr>px = 7, pd = 3, pc = Some 0\<rparr>, Some \<lparr>px = 8, pd = 4, pc = Some 1\<rparr>],
           observers = [Some \<lparr>w_pc = Some 0\<rparr>],
           trace = [Alloc 0, Alloc 1]\<rparr>"
  let ?s' = "\<lparr>heap = [Some \<lparr>ref_count = 2, cb_px = 7\<rparr>, None],
           owners = [Some \<lparr>px = 0, pd = 3, pc = None\<rparr>, Some \<lparr>px = 7, pd = 3, pc = Some 0\<rparr>, None],
           observers = [Some \<lparr>w_pc = Some 0\<rparr>],
           trace = [Alloc 0, Alloc 1, Destroy 4 8, Clear 1, Free 1]\<rparr>"
  have r: "run 0 [Owner_Ctor 7 3, Obs_From_Owner 0, Owner_Ctor 8 4] init = Some ?s"
    by (simp add: model_defs)
  have o: "owner ?s 0 = Some \<lparr>px = 7, pd = 3, pc = Some 0\<rparr>"
    by (simp add: owner_def)
  have u: "owner ?s 1 = Some \<lparr>px = 8, pd = 4, pc = Some 1\<rparr>"
    by (simp add: owner_def)
  have v: "observer ?s 0 = Some \<lparr>w_pc = Some 0\<rparr>"
    by (simp add: observer_def)
  have e: "wup_move_assign 1 0 ?s = Some ?s'"
    by (simp add: model_defs)
  from move_relocates_cell[OF r o] u v e
  have "map_option fst (try_get 0 ?s') = Some 7"
    by auto
  with r e show ?thesis by simp
qed

text \<open>
  C5.  Let \<open>k\<close> be a live observer, with member \<open>v\<close>, in a state that a client program
  reaches.  \<open>expired()\<close> and \<open>try_get()\<close> return, and both leave the state as it was.
  If the observer has no control block, \<open>expired()\<close> is true and \<open>try_get()\<close> is the null
  pointer.  If it has one, that block is live, \<open>expired()\<close> is true exactly when the
  pointer stored in the block is null, and \<open>try_get()\<close> is the stored pointer (the
  null pointer when that is what is stored).
\<close>

theorem observer_queries:
  assumes "run m cs init = Some s" and "observer s k = Some v"
  shows "(w_pc v = None \<longrightarrow>
            expired k s = Some (True, s) \<and> try_get k s = Some (0, s)) \<and>
         (\<forall>a. w_pc v = Some a \<longrightarrow>
            (\<exists>cb. cell s a = Some cb \<and>
               expired k s = Some (cb_px cb = 0, s) \<and>
               try_get k s = Some (cb_px cb, s)))"
proof -
  have n: "expired k s = Some (True, s) \<and> try_get k s = Some (0, s)" if "w_pc v = None"
    using assms(2) that by (simp add: expired_def try_get_def)
  have b: "\<exists>cb. cell s a = Some cb \<and>
               expired k s = Some (cb_px cb = 0, s) \<and>
               try_get k s = Some (cb_px cb, s)" if a: "w_pc v = Some a" for a
  proof -
    from assms(1) have "inv_refs s" by (auto dest: reachable_inv simp: invariant_def)
    moreover from assms(2) a have "0 < handles s a" by (rule handles_pos_observer)
    ultimately obtain cb where "cell s a = Some cb" by (blast dest: inv_refs_live)
    with assms(2) a show ?thesis
      by (simp add: expired_def try_get_def cb_get_def)
  qed
  from n b show ?thesis by blast
qed

theorem observer_queries_witness:
  "run 0 [Owner_Ctor 7 3, Obs_From_Owner 0, Obs_Default] init =
     Some \<lparr>heap = [Some \<lparr>ref_count = 2, cb_px = 7\<rparr>],
           owners = [Some \<lparr>px = 7, pd = 3, pc = Some 0\<rparr>],
           observers = [Some \<lparr>w_pc = Some 0\<rparr>, Some \<lparr>w_pc = None\<rparr>],
           trace = [Alloc 0]\<rparr> \<and>
   map_option fst (expired 0
         \<lparr>heap = [Some \<lparr>ref_count = 2, cb_px = 7\<rparr>],
           owners = [Some \<lparr>px = 7, pd = 3, pc = Some 0\<rparr>],
           observers = [Some \<lparr>w_pc = Some 0\<rparr>, Some \<lparr>w_pc = None\<rparr>],
           trace = [Alloc 0]\<rparr>) = Some False \<and>
   map_option fst (try_get 0
         \<lparr>heap = [Some \<lparr>ref_count = 2, cb_px = 7\<rparr>],
           owners = [Some \<lparr>px = 7, pd = 3, pc = Some 0\<rparr>],
           observers = [Some \<lparr>w_pc = Some 0\<rparr>, Some \<lparr>w_pc = None\<rparr>],
           trace = [Alloc 0]\<rparr>) = Some 7 \<and>
   map_option fst (expired 1
         \<lparr>heap = [Some \<lparr>ref_count = 2, cb_px = 7\<rparr>],
           owners = [Some \<lparr>px = 7, pd = 3, pc = Some 0\<rparr>],
           observers = [Some \<lparr>w_pc = Some 0\<rparr>, Some \<lparr>w_pc = None\<rparr>],
           trace = [Alloc 0]\<rparr>) = Some True"
proof -
  let ?s = "\<lparr>heap = [Some \<lparr>ref_count = 2, cb_px = 7\<rparr>],
           owners = [Some \<lparr>px = 7, pd = 3, pc = Some 0\<rparr>],
           observers = [Some \<lparr>w_pc = Some 0\<rparr>, Some \<lparr>w_pc = None\<rparr>],
           trace = [Alloc 0]\<rparr>"
  have r: "run 0 [Owner_Ctor 7 3, Obs_From_Owner 0, Obs_Default] init = Some ?s"
    by (simp add: model_defs)
  have v0: "observer ?s 0 = Some \<lparr>w_pc = Some 0\<rparr>"
    by (simp add: observer_def)
  have v1: "observer ?s 1 = Some \<lparr>w_pc = None\<rparr>"
    by (simp add: observer_def)
  have c: "cell ?s 0 = Some \<lparr>ref_count = 2, cb_px = 7\<rparr>"
    by (simp add: cell_def)
  from observer_queries[OF r v0] c
  have "map_option fst (expired 0 ?s) = Some False" "map_option fst (try_get 0 ?s) = Some 7"
    by auto
  moreover from observer_queries[OF r v1]
  have "map_option fst (expired 1 ?s) = Some True"
    by auto
  ultimately show ?thesis using r by simp
qed

text \<open>
  C6.  In a state that a client program reaches, the constructor from a pointer \<open>p\<close>,
  null or not, returns a new owner that holds \<open>p\<close>, the given deleter and a control
  block at an address where no block was and to which no handle referred; the block
  holds \<open>p\<close> and has count 1.  The owner's \<open>operator bool\<close> is \<open>p != 0\<close>.  An observer
  constructed from the owner is bound to that block, and its \<open>expired()\<close> is \<open>p == 0\<close>:
  for the null pointer the owner converts to false, and the observer is bound and
  expired.
\<close>

theorem pointer_ctor_allocates_cell:
  assumes "run m cs init = Some s"
  shows "\<exists>s'. wup_ctor m p d s = Some (length (owners s), s') \<and>
     owner s' (length (owners s)) = Some \<lparr>px = p, pd = d, pc = Some (length (heap s))\<rparr> \<and>
     cell s (length (heap s)) = None \<and> handles s (length (heap s)) = 0 \<and>
     cell s' (length (heap s)) = Some \<lparr>ref_count = 1, cb_px = p\<rparr> \<and>
     wup_bool (length (owners s)) s' = Some (p \<noteq> 0) \<and>
     (\<exists>s''. uwp_from_owner m (length (owners s)) s' = Some (length (observers s'), s'') \<and>
        observer s'' (length (observers s')) = Some \<lparr>w_pc = Some (length (heap s))\<rparr> \<and>
        expired (length (observers s')) s'' = Some (p = 0, s''))"
proof -
  from assms(1) have iv: "invariant s" by (rule reachable_inv)
  then have r: "inv_refs s" by (simp add: invariant_def)
  let ?t = "length (owners s)"
  let ?a = "length (heap s)"
  let ?n = "\<lparr>px = p, pd = d, pc = Some ?a\<rparr>"
  let ?s1 = "s\<lparr>heap := heap s @ [Some \<lparr>ref_count = 1, cb_px = p\<rparr>],
               owners := owners s @ [Some ?n],
               trace := trace s @ [Alloc ?a]\<rparr>"
  have c1: "wup_ctor m p d s = Some (?t, ?s1)" by (rule wup_ctor_eq)
  with iv have iv1: "invariant ?s1" by (rule wup_ctor_inv)
  have o1: "owner ?s1 ?t = Some ?n"
    by (simp add: owner_def)
  have fresh: "cell s ?a = None" by (simp add: cell_def)
  have cs1: "cell ?s1 ?a = Some \<lparr>ref_count = 1, cb_px = p\<rparr>"
    by (simp add: cell_def)
  have b1: "wup_bool ?t ?s1 = Some (p \<noteq> 0)"
    by (simp add: wup_bool_def owner_def)
  from iv1 have "inv_refs ?s1" by (simp add: invariant_def)
  then have lt: "handles ?s1 a < LONG_MAX m" if "pc ?n = Some a" for a
    using that new_block_one_handle[of ?s1 ?a p m] cs1 by simp
  from snapshot_reads_owner[OF iv1 o1 lt]
  have sn: "\<exists>s''. uwp_from_owner m ?t ?s1 = Some (length (observers ?s1), s'') \<and>
        observer s'' (length (observers ?s1)) = Some \<lparr>w_pc = Some ?a\<rparr> \<and>
        expired (length (observers ?s1)) s'' = Some (p = 0, s'')"
    by auto
  show ?thesis
    by (rule exI[where x = ?s1], intro conjI)
      (rule c1 o1 fresh fresh_cell_no_handles[OF r] cs1 b1 sn)+
qed

theorem pointer_ctor_allocates_cell_witness:
  "run 0 [] init = Some init \<and>
   wup_ctor 0 0 3 init =
     Some (0, \<lparr>heap = [Some \<lparr>ref_count = 1, cb_px = 0\<rparr>],
                owners = [Some \<lparr>px = 0, pd = 3, pc = Some 0\<rparr>],
                observers = [],
                trace = [Alloc 0]\<rparr>) \<and>
   wup_bool 0
         \<lparr>heap = [Some \<lparr>ref_count = 1, cb_px = 0\<rparr>],
           owners = [Some \<lparr>px = 0, pd = 3, pc = Some 0\<rparr>],
           observers = [],
           trace = [Alloc 0]\<rparr> = Some False \<and>
   uwp_from_owner 0 0
         \<lparr>heap = [Some \<lparr>ref_count = 1, cb_px = 0\<rparr>],
           owners = [Some \<lparr>px = 0, pd = 3, pc = Some 0\<rparr>],
           observers = [],
           trace = [Alloc 0]\<rparr> =
     Some (0, \<lparr>heap = [Some \<lparr>ref_count = 2, cb_px = 0\<rparr>],
                owners = [Some \<lparr>px = 0, pd = 3, pc = Some 0\<rparr>],
                observers = [Some \<lparr>w_pc = Some 0\<rparr>],
                trace = [Alloc 0]\<rparr>) \<and>
   map_option fst (expired 0
         \<lparr>heap = [Some \<lparr>ref_count = 2, cb_px = 0\<rparr>],
           owners = [Some \<lparr>px = 0, pd = 3, pc = Some 0\<rparr>],
           observers = [Some \<lparr>w_pc = Some 0\<rparr>],
           trace = [Alloc 0]\<rparr>) = Some True"
proof -
  let ?s1 = "\<lparr>heap = [Some \<lparr>ref_count = 1, cb_px = 0\<rparr>],
           owners = [Some \<lparr>px = 0, pd = 3, pc = Some 0\<rparr>],
           observers = [],
           trace = [Alloc 0]\<rparr>"
  let ?s2 = "\<lparr>heap = [Some \<lparr>ref_count = 2, cb_px = 0\<rparr>],
           owners = [Some \<lparr>px = 0, pd = 3, pc = Some 0\<rparr>],
           observers = [Some \<lparr>w_pc = Some 0\<rparr>],
           trace = [Alloc 0]\<rparr>"
  have r: "run 0 [] init = Some init" by simp
  have c: "wup_ctor 0 0 3 init = Some (0, ?s1)"
    by (simp add: model_defs)
  have u: "uwp_from_owner 0 0 ?s1 = Some (0, ?s2)"
    by (simp add: model_defs)
  have l: "length (owners init) = 0" "length (observers ?s1) = 0"
    by (simp_all add: init_def)
  from pointer_ctor_allocates_cell[OF r, of 0 3]
  have "wup_bool 0 ?s1 = Some False" "expired 0 ?s2 = Some (True, ?s2)"
    by (auto simp: l c u)
  with r c u show ?thesis by simp
qed

text \<open>
  C7.  In a state that a client program reaches, the default constructor returns a new
  owner with the null pointer and no control block.  An observer constructed from that
  owner is bound to nothing and reports \<open>expired() == true\<close>.  It stays so after
  every further sequence of calls in which nothing is assigned to this observer, it is
  not swapped and it is not destroyed: it is still bound to nothing, \<open>expired()\<close> is
  true and \<open>try_get()\<close> is the null pointer.  In particular \<open>reset(r2)\<close> on the owner
  returns and gives the owner \<open>r2\<close> and a new control block, and the observer still
  reports \<open>expired() == true\<close>.
\<close>

theorem default_owner_observer_stays_expired:
  assumes "run m cs init = Some s"
  shows "\<exists>s1 s2. wup_default s = Some (length (owners s), s1) \<and>
     owner s1 (length (owners s)) = Some \<lparr>px = 0, pd = default_deleter, pc = None\<rparr> \<and>
     uwp_from_owner m (length (owners s)) s1 = Some (length (observers s), s2) \<and>
     observer s2 (length (observers s)) = Some \<lparr>w_pc = None\<rparr> \<and>
     expired (length (observers s)) s2 = Some (True, s2) \<and>
     (\<forall>cs' s3. run m cs' s2 = Some s3 \<longrightarrow>
        (\<forall>c\<in>set cs'. \<not> rebinds (length (observers s)) c) \<longrightarrow>
        observer s3 (length (observers s)) = Some \<lparr>w_pc = None\<rparr> \<and>
        expired (length (observers s)) s3 = Some (True, s3) \<and>
        try_get (length (observers s)) s3 = Some (0, s3)) \<and>
     (\<forall>r2. \<exists>s3. wup_reset m (length (owners s)) r2 s2 = Some s3 \<and>
        owner s3 (length (owners s)) =
          Some \<lparr>px = r2, pd = default_deleter, pc = Some (length (heap s2))\<rparr> \<and>
        observer s3 (length (observers s)) = Some \<lparr>w_pc = None\<rparr> \<and>
        expired (length (observers s)) s3 = Some (True, s3))"
proof -
  from assms(1) have iv: "invariant s" by (rule reachable_inv)
  let ?t = "length (owners s)"
  let ?k = "length (observers s)"
  let ?d = "\<lparr>px = 0, pd = default_deleter, pc = None\<rparr>"
  let ?s1 = "s\<lparr>owners := owners s @ [Some ?d]\<rparr>"
  have d1: "wup_default s = Some (?t, ?s1)" by (rule wup_default_eq)
  with iv have iv1: "invariant ?s1" by (rule wup_default_inv)
  have o1: "owner ?s1 ?t = Some ?d" by (simp add: owner_def)
  from snapshot_reads_owner[OF iv1 o1] obtain s2 where
    s2: "uwp_from_owner m ?t ?s1 = Some (?k, s2)" and iv2: "invariant s2" and
    own2: "owners s2 = owners ?s1" and
    v2: "observer s2 ?k = Some \<lparr>w_pc = None\<rparr>"
    by auto
  have u2: "unbound s2 ?k" using v2 by (simp add: unbound_def)
  have o2: "owner s2 ?t = Some ?d" using o1 unfolding owner_def own2 .
  have e2: "expired ?k s2 = Some (True, s2)"
    using unbound_expired[OF u2] by simp
  have fr: "observer s3 ?k = Some \<lparr>w_pc = None\<rparr> \<and>
        expired ?k s3 = Some (True, s3) \<and> try_get ?k s3 = Some (0, s3)"
    if "run m cs' s2 = Some s3" and "\<forall>c\<in>set cs'. \<not> rebinds ?k c" for cs' s3
  proof -
    from u2 that have "unbound s3 ?k" by (rule run_unbound)
    with unbound_expired[of s3 ?k] show ?thesis by (simp add: unbound_def)
  qed
  have rs: "\<exists>s3. wup_reset m ?t r2 s2 = Some s3 \<and>
        owner s3 ?t = Some \<lparr>px = r2, pd = default_deleter, pc = Some (length (heap s2))\<rparr> \<and>
        observer s3 ?k = Some \<lparr>w_pc = None\<rparr> \<and>
        expired ?k s3 = Some (True, s3)" for r2
  proof -
    from iv2 have "inv_refs s2" by (simp add: invariant_def)
    from wup_reset_returns[OF this o2, where p = r2 and m = m] obtain s3 where
      s3: "wup_reset m ?t r2 s2 = Some s3" and
      o3: "owner s3 ?t = Some \<lparr>px = r2, pd = default_deleter, pc = Some (length (heap s2))\<rparr>"
      by blast
    from s3 have "run m [Owner_Reset ?t r2] s2 = Some s3" by simp
    from fr[OF this] s3 o3 show ?thesis by simp
  qed
  show ?thesis
    by (rule exI[where x = ?s1], rule exI[where x = s2], intro conjI allI impI)
      (use d1 o1 s2 v2 e2 fr rs in blast)+
qed

theorem default_owner_observer_stays_expired_witness:
  "run 0 [] init = Some init \<and>
   run 0 [Owner_Default, Obs_From_Owner 0, Owner_Reset 0 9, Obs_From_Owner 0] init =
     Some \<lparr>heap = [Some \<lparr>ref_count = 2, cb_px = 9\<rparr>],
           owners = [Some \<lparr>px = 9, pd = default_deleter, pc = Some 0\<rparr>, None],
           observers = [Some \<lparr>w_pc = None\<rparr>, Some \<lparr>w_pc = Some 0\<rparr>],
           trace = [Alloc 0]\<rparr> \<and>
   expired 0 \<lparr>heap = [Some \<lparr>ref_count = 2, cb_px = 9\<rparr>],
           owners = [Some \<lparr>px = 9, pd = default_deleter, pc = Some 0\<rparr>, None],
           observers = [Some \<lparr>w_pc = None\<rparr>, Some \<lparr>w_pc = Some 0\<rparr>],
           trace = [Alloc 0]\<rparr> =
     Some (True, \<lparr>heap = [Some \<lparr>ref_count = 2, cb_px = 9\<rparr>],
           owners = [Some \<lparr>px = 9, pd = default_deleter, pc = Some 0\<rparr>, None],
           observers = [Some \<lparr>w_pc = None\<rparr>, Some \<lparr>w_pc = Some 0\<rparr>],
           trace = [Alloc 0]\<rparr>)"
proof -
  let ?s1 = "\<lparr>heap = [], owners = [Some \<lparr>px = 0, pd = default_deleter, pc = None\<rparr>],
           observers = [], trace = []\<rparr>"
  let ?s2 = "\<lparr>heap = [], owners = [Some \<lparr>px = 0, pd = default_deleter, pc = None\<rparr>],
           observers = [Some \<lparr>w_pc = None\<rparr>], trace = []\<rparr>"
  let ?s3 = "\<lparr>heap = [Some \<lparr>ref_count = 2, cb_px = 9\<rparr>],
           owners = [Some \<lparr>px = 9, pd = default_deleter, pc = Some 0\<rparr>, None],
           observers = [Some \<lparr>w_pc = None\<rparr>, Some \<lparr>w_pc = Some 0\<rparr>],
           trace = [Alloc 0]\<rparr>"
  have r: "run 0 [] init = Some init" by simp
  have d: "wup_default init = Some (0, ?s1)"
    by (simp add: model_defs)
  have u: "uwp_from_owner 0 0 ?s1 = Some (0, ?s2)"
    by (simp add: model_defs)
  have l: "length (owners init) = 0" "length (observers init) = 0"
    by (simp_all add: init_def)
  have c: "run 0 [Owner_Reset 0 9, Obs_From_Owner 0] ?s2 = Some ?s3"
    by (simp add: model_defs)
  have n: "\<forall>c\<in>set [Owner_Reset 0 9, Obs_From_Owner 0]. \<not> rebinds 0 c"
    by simp
  have a: "run 0 [Owner_Default, Obs_From_Owner 0, Owner_Reset 0 9, Obs_From_Owner 0] init = Some ?s3"
    by (simp add: model_defs)
  from default_owner_observer_stays_expired[OF r, unfolded l d] obtain s2 where
    s2: "uwp_from_owner 0 0 ?s1 = Some (0, s2)" and
    fr: "\<forall>cs' s3. run 0 cs' s2 = Some s3 \<longrightarrow> (\<forall>c\<in>set cs'. \<not> rebinds 0 c) \<longrightarrow>
        observer s3 0 = Some \<lparr>w_pc = None\<rparr> \<and>
        expired 0 s3 = Some (True, s3) \<and> try_get 0 s3 = Some (0, s3)"
    by auto
  from s2 u have "s2 = ?s2" by simp
  with fr c n have "expired 0 ?s3 = Some (True, ?s3)"
    by blast
  with r a show ?thesis by simp
qed

text \<open>
  C8.  In every state that a client program reaches, on every implementation, a
  control block that has been deleted or never allocated has no handle, and the
  \<open>ref_count\<close> of a live control block is the number of handles on it (the \<open>pc\<close> of its
  owner, if any, and the \<open>pc\<close> of every observer bound to it), which is positive and at
  most \<open>LONG_MAX\<close>.  Taking a handle on it (\<open>intrusive_ptr_add_ref\<close>) adds exactly one to
  the count while the count is below \<open>LONG_MAX\<close>, and is undefined when the count is
  \<open>LONG_MAX\<close>; giving one up (\<open>intrusive_ptr_release\<close>) takes exactly one off and deletes
  the block exactly when the count becomes zero.
\<close>

theorem ref_count_counts_handles:
  assumes "run m cs init = Some s"
  shows "(cell s a = None \<longrightarrow> handles s a = 0) \<and>
         (\<forall>cb. cell s a = Some cb \<longrightarrow>
            ref_count cb = handles s a \<and> 0 < ref_count cb \<and> ref_count cb \<le> LONG_MAX m \<and>
            map_option (\<lambda>s'. cell s' a) (intrusive_ptr_add_ref m a s) =
              (if ref_count cb < LONG_MAX m
               then Some (Some (cb\<lparr>ref_count := ref_count cb + 1\<rparr>)) else None) \<and>
            map_option (\<lambda>s'. cell s' a) (intrusive_ptr_release a s) =
              Some (if ref_count cb = 1 then None
                    else Some (cb\<lparr>ref_count := ref_count cb - 1\<rparr>)))"
proof -
  from assms have r: "inv_refs s" by (auto dest: reachable_inv simp: invariant_def)
  from assms have l: "inv_long m s" by (rule reachable_long)
  have n: "handles s a = 0" if "cell s a = None"
    using r that by (rule inv_refs_dead)
  have c: "ref_count cb = handles s a \<and> 0 < ref_count cb \<and> ref_count cb \<le> LONG_MAX m \<and>
            map_option (\<lambda>s'. cell s' a) (intrusive_ptr_add_ref m a s) =
              (if ref_count cb < LONG_MAX m
               then Some (Some (cb\<lparr>ref_count := ref_count cb + 1\<rparr>)) else None) \<and>
            map_option (\<lambda>s'. cell s' a) (intrusive_ptr_release a s) =
              Some (if ref_count cb = 1 then None
                    else Some (cb\<lparr>ref_count := ref_count cb - 1\<rparr>))"
    if cb: "cell s a = Some cb" for cb
  proof -
    from inv_refs_cell[OF r cb] have "ref_count cb = handles s a" "0 < ref_count cb"
      by simp_all
    moreover from l cb have "ref_count cb \<le> LONG_MAX m"
      by (simp add: inv_long_def)
    ultimately show ?thesis
      using add_ref_cell[OF cb, of m] release_cell[OF cb] by simp
  qed
  from n c show ?thesis by blast
qed

theorem ref_count_counts_handles_witness:
  "run 0 [Owner_Ctor 7 3, Obs_From_Owner 0, Obs_Copy 0] init =
     Some \<lparr>heap = [Some \<lparr>ref_count = 3, cb_px = 7\<rparr>],
           owners = [Some \<lparr>px = 7, pd = 3, pc = Some 0\<rparr>],
           observers = [Some \<lparr>w_pc = Some 0\<rparr>, Some \<lparr>w_pc = Some 0\<rparr>],
           trace = [Alloc 0]\<rparr> \<and>
   handles \<lparr>heap = [Some \<lparr>ref_count = 3, cb_px = 7\<rparr>],
           owners = [Some \<lparr>px = 7, pd = 3, pc = Some 0\<rparr>],
           observers = [Some \<lparr>w_pc = Some 0\<rparr>, Some \<lparr>w_pc = Some 0\<rparr>],
           trace = [Alloc 0]\<rparr> 0 = 3 \<and>
   map_option heap (intrusive_ptr_add_ref 0 0
         \<lparr>heap = [Some \<lparr>ref_count = 3, cb_px = 7\<rparr>],
           owners = [Some \<lparr>px = 7, pd = 3, pc = Some 0\<rparr>],
           observers = [Some \<lparr>w_pc = Some 0\<rparr>, Some \<lparr>w_pc = Some 0\<rparr>],
           trace = [Alloc 0]\<rparr>) = Some [Some \<lparr>ref_count = 4, cb_px = 7\<rparr>]"
proof -
  let ?s = "\<lparr>heap = [Some \<lparr>ref_count = 3, cb_px = 7\<rparr>],
           owners = [Some \<lparr>px = 7, pd = 3, pc = Some 0\<rparr>],
           observers = [Some \<lparr>w_pc = Some 0\<rparr>, Some \<lparr>w_pc = Some 0\<rparr>],
           trace = [Alloc 0]\<rparr>"
  have r: "run 0 [Owner_Ctor 7 3, Obs_From_Owner 0, Obs_Copy 0] init = Some ?s"
    by (simp add: model_defs)
  have c: "cell ?s 0 = Some \<lparr>ref_count = 3, cb_px = 7\<rparr>"
    by (simp add: cell_def)
  have e: "map_option heap (intrusive_ptr_add_ref 0 0 ?s) = Some [Some \<lparr>ref_count = 4, cb_px = 7\<rparr>]"
    by (simp add: model_defs)
  from ref_count_counts_handles[OF r, of 0] c have "handles ?s 0 = 3"
    by simp
  with r e show ?thesis by simp
qed

text \<open>
  C10.  Let \<open>i\<close> be a live owner, with members \<open>w\<close>, in a state that a client program
  reaches.  The assignment \<open>= nullptr\<close> returns.  What it adds to the effects is the
  call of the deleter on the previous \<open>px\<close>, only when that is not null, and then the
  \<open>reset()\<close> of the previous control block, only when there was one (and its deletion
  when the owner held the last handle); that block is deleted or holds the null
  pointer.  No control block is allocated: the heap has the size it had.  Afterwards
  the owner holds the null pointer and no control block, and an observer constructed
  from it is bound to nothing.
\<close>

theorem assign_null_empties_owner:
  assumes "run m cs init = Some s" and "owner s i = Some w"
  shows "\<exists>s'. wup_assign_null i s = Some s' \<and>
     owner s' i = Some \<lparr>px = 0, pd = default_deleter, pc = None\<rparr> \<and>
     length (heap s') = length (heap s) \<and>
     trace s' = trace s
        @ (if px w \<noteq> 0 then [Destroy (pd w) (px w)] else [])
        @ (case pc w of None \<Rightarrow> []
           | Some a \<Rightarrow> Clear a # (if handles s a = 1 then [Free a] else [])) \<and>
     (\<forall>a. pc w = Some a \<longrightarrow> cb_get a s' = None \<or> cb_get a s' = Some 0) \<and>
     (\<exists>s''. uwp_from_owner m i s' = Some (length (observers s'), s'') \<and>
        observer s'' (length (observers s')) = Some \<lparr>w_pc = None\<rparr>)"
proof -
  from assms(1) have iv: "invariant s" by (rule reachable_inv)
  then have r: "inv_refs s" by (simp add: invariant_def)
  let ?t = "length (owners s)"
  let ?d = "\<lparr>px = 0, pd = default_deleter, pc = None\<rparr>"
  let ?s1 = "s\<lparr>owners := owners s @ [Some ?d]\<rparr>"
  have il: "i < ?t" using assms(2) by (rule owner_length)
  have d1: "wup_default s = Some (?t, ?s1)" by (rule wup_default_eq)
  with r have r1: "inv_refs ?s1" by (rule wup_default_refs)
  have o1: "owner ?s1 ?t = Some ?d" "owner ?s1 i = Some w"
    using assms(2) il by (auto simp: owner_def nth_append split: if_splits)
  have ne: "?t \<noteq> i" using il by simp
  have h1: "handles ?s1 b = handles s b" for b
    by (simp add: handles_def)
  from swap_dtor_effect[OF r1 o1 ne] obtain s' where
    s': "(wup_swap ?t i ?s1 \<bind> wup_dtor ?t) = Some s'" and
    own: "owners s' = (owners ?s1)[i := Some ?d, ?t := None]" and
    len: "length (heap s') = length (heap ?s1)" and
    cel: "\<forall>b. cell s' b =
        (if pc w = Some b
         then (if handles ?s1 b = 1 then None
               else Some \<lparr>ref_count = handles ?s1 b - 1, cb_px = 0\<rparr>)
         else cell ?s1 b)" and
    tra: "trace s' = trace ?s1
        @ (if px w \<noteq> 0 then [Destroy (pd w) (px w)] else [])
        @ (case pc w of None \<Rightarrow> []
           | Some a \<Rightarrow> Clear a # (if handles ?s1 a = 1 then [Free a] else []))"
    by blast
  have an: "wup_assign_null i s = Some s'"
    using s' by (simp only: wup_assign_null_def d1 Option.bind.simps prod.case)
  have oi: "owner s' i = Some ?d"
    using il by (simp add: own owner_def)
  have t1: "trace ?s1 = trace s" by simp
  have tr: "trace s' = trace s
        @ (if px w \<noteq> 0 then [Destroy (pd w) (px w)] else [])
        @ (case pc w of None \<Rightarrow> []
           | Some a \<Rightarrow> Clear a # (if handles s a = 1 then [Free a] else []))"
    using tra unfolding h1 t1 .
  have cl: "cb_get a s' = None \<or> cb_get a s' = Some 0" if "pc w = Some a" for a
    using cel that by (simp add: cb_get_def)
  from iv an have "invariant s'" by (rule wup_assign_null_inv)
  from snapshot_reads_owner[OF this oi]
  have sn: "\<exists>s''. uwp_from_owner m i s' = Some (length (observers s'), s'') \<and>
        observer s'' (length (observers s')) = Some \<lparr>w_pc = None\<rparr>"
    by auto
  from an oi len tr cl sn show ?thesis by simp
qed

theorem assign_null_empties_owner_witness:
  "run 0 [Owner_Ctor 7 3, Obs_From_Owner 0] init =
     Some \<lparr>heap = [Some \<lparr>ref_count = 2, cb_px = 7\<rparr>],
           owners = [Some \<lparr>px = 7, pd = 3, pc = Some 0\<rparr>],
           observers = [Some \<lparr>w_pc = Some 0\<rparr>],
           trace = [Alloc 0]\<rparr> \<and>
   wup_assign_null 0
         \<lparr>heap = [Some \<lparr>ref_count = 2, cb_px = 7\<rparr>],
           owners = [Some \<lparr>px = 7, pd = 3, pc = Some 0\<rparr>],
           observers = [Some \<lparr>w_pc = Some 0\<rparr>],
           trace = [Alloc 0]\<rparr> =
     Some \<lparr>heap = [Some \<lparr>ref_count = 1, cb_px = 0\<rparr>],
           owners = [Some \<lparr>px = 0, pd = default_deleter, pc = None\<rparr>, None],
           observers = [Some \<lparr>w_pc = Some 0\<rparr>],
           trace = [Alloc 0, Destroy 3 7, Clear 0]\<rparr> \<and>
   map_option fst (uwp_from_owner 0 0
         \<lparr>heap = [Some \<lparr>ref_count = 1, cb_px = 0\<rparr>],
           owners = [Some \<lparr>px = 0, pd = default_deleter, pc = None\<rparr>, None],
           observers = [Some \<lparr>w_pc = Some 0\<rparr>],
           trace = [Alloc 0, Destroy 3 7, Clear 0]\<rparr>) = Some 1"
proof -
  let ?s = "\<lparr>heap = [Some \<lparr>ref_count = 2, cb_px = 7\<rparr>],
           owners = [Some \<lparr>px = 7, pd = 3, pc = Some 0\<rparr>],
           observers = [Some \<lparr>w_pc = Some 0\<rparr>],
           trace = [Alloc 0]\<rparr>"
  let ?s' = "\<lparr>heap = [Some \<lparr>ref_count = 1, cb_px = 0\<rparr>],
           owners = [Some \<lparr>px = 0, pd = default_deleter, pc = None\<rparr>, None],
           observers = [Some \<lparr>w_pc = Some 0\<rparr>],
           trace = [Alloc 0, Destroy 3 7, Clear 0]\<rparr>"
  have r: "run 0 [Owner_Ctor 7 3, Obs_From_Owner 0] init = Some ?s"
    by (simp add: model_defs)
  have o: "owner ?s 0 = Some \<lparr>px = 7, pd = 3, pc = Some 0\<rparr>"
    by (simp add: owner_def)
  have e: "wup_assign_null 0 ?s = Some ?s'"
    by (simp add: model_defs)
  from assign_null_empties_owner[OF r o] e
  have "map_option fst (uwp_from_owner 0 0 ?s') = Some 1"
    by auto
  with r e show ?thesis by simp
qed

end
